theory Spec2Isabelle
  imports Complex_Main "HOL-Library.Char_ord" "HOL-Library.List_Lexorder"
    "HOL-Library.Product_Lexorder" "HOL-Library.AList" "HOL-Library.Sublist"
begin

section \<open>Data model\<close>

text \<open>
  The module \<^verbatim>\<open>experiment/data_properties.py\<close> relates diagnostic test outcomes of
  cryptocurrency log-return series to the forecasting error of a list of models.
  A table read by \<^verbatim>\<open>pd.read_csv\<close> is a list of column names and a list of rows; a
  cell is the text of its CSV field. Missing values (NaN) arise in this development only
  from the outer merge of \<^verbatim>\<open>auto_correlation\<close>, where they are \<open>None\<close>.
  The names of the index columns, \<^verbatim>\<open>Coin\<close> and \<^verbatim>\<open>Time Frame\<close>, are assumed
  not to occur as test outcomes.
\<close>

datatype error =
    FileNotFoundError string
  | ParserError string
  | KeyError string
  | IndexError
  | ValueError string
  | TypeError string
  | TestError string

record config =
  statistics_dir :: string
  timeframes :: "string list"
  all_models :: "string list"
  log_returns_pred :: string

record frame =
  columns :: "string list"
  rows :: "string list list"

type_synonym key = "string \<times> string"

text \<open>The cell of row \<open>r\<close> under the column named \<open>c\<close>.\<close>

definition cell :: "string list \<Rightarrow> string list \<Rightarrow> string \<Rightarrow> string" where
  "cell cs r c = (case map_of (zip cs r) c of Some v \<Rightarrow> v | None \<Rightarrow> [])"

text \<open>Selecting columns by name raises \<^verbatim>\<open>KeyError\<close> at the first name the table lacks.\<close>

definition missing_columns :: "frame \<Rightarrow> string list \<Rightarrow> string list" where
  "missing_columns df cs = filter (\<lambda>c. c \<notin> set (columns df)) cs"

section \<open>The threshold reducer \<^verbatim>\<open>high_auto_cor\<close>\<close>

text \<open>
  \<^verbatim>\<open>df.groupby(["Coin", "Time Frame", "Result"]).size().reset_index(name="Count")\<close>:
  one row per distinct triple, in ascending order of the triple, with the number of rows
  of \<open>df\<close> that carry it.
\<close>

definition triples :: "frame \<Rightarrow> (string \<times> string \<times> string) list" where
  "triples df =
     map (\<lambda>r. (cell (columns df) r ''Coin'', cell (columns df) r ''Time Frame'',
               cell (columns df) r ''Result''))
       (rows df)"

definition grouped_df :: "frame \<Rightarrow> error + ((string \<times> string \<times> string) \<times> nat) list" where
  "grouped_df df =
     (case missing_columns df [''Coin'', ''Time Frame'', ''Result''] of
        c # _ \<Rightarrow> Inl (KeyError c)
      | [] \<Rightarrow> Inr (map (\<lambda>g. (g, count_list (triples df) g)) (sort (remdups (triples df)))))"

text \<open>
  \<^verbatim>\<open>pivot_table(index=["Coin", "Time Frame"], columns="Result", values="Count",
  fill_value=0).reset_index()\<close>: one row per distinct index pair and one column per
  distinct outcome, both ascending; a cell aggregates (by the default mean) the counts
  of its pair and outcome and is 0 where there are none.
\<close>

record pivot =
  outcomes :: "string list"
  entries :: "(key \<times> (string \<Rightarrow> real)) list"

definition mean :: "nat list \<Rightarrow> real" where
  "mean ns = real (sum_list ns) / real (length ns)"

definition pivot_cell :: "((string \<times> string \<times> string) \<times> nat) list \<Rightarrow> key \<Rightarrow> string \<Rightarrow> real" where
  "pivot_cell g k res =
     (let ns = map snd (filter (\<lambda>(t, n). t = (fst k, snd k, res)) g)
      in if ns = [] then 0 else mean ns)"

definition pivot_table :: "((string \<times> string \<times> string) \<times> nat) list \<Rightarrow> pivot" where
  "pivot_table g =
     \<lparr>outcomes = sort (remdups (map (\<lambda>((c, tf, res), n). res) g)),
      entries = map (\<lambda>k. (k, pivot_cell g k))
                  (sort (remdups (map (\<lambda>((c, tf, res), n). (c, tf)) g)))\<rparr>"

text \<open>
  \<^verbatim>\<open>high_auto_cor\<close> applied to the table already read: the column
  \<^verbatim>\<open>pivot_df["Autocorrelated"]\<close> exists only when some row of the input has that
  outcome; \<^verbatim>\<open>np.where(... > 49, ...)\<close> labels each pair.
\<close>

definition predominantly :: "real \<Rightarrow> string" where
  "predominantly n = (if n > 49 then ''Autocorrelated'' else ''Not Autocorrelated'')"

definition reduce_counts :: "frame \<Rightarrow> error + (key \<times> string) list" where
  "reduce_counts df =
     (case grouped_df df of
        Inl e \<Rightarrow> Inl e
      | Inr g \<Rightarrow>
          (let pivot_df = pivot_table g in
           if ''Autocorrelated'' \<in> set (outcomes pivot_df)
           then Inr (map (\<lambda>(k, counts). (k, predominantly (counts ''Autocorrelated'')))
                       (entries pivot_df))
           else Inl (KeyError ''Autocorrelated'')))"

definition csv_path :: "config \<Rightarrow> string \<Rightarrow> string" where
  "csv_path cfg name = statistics_dir cfg @ ''/'' @ name @ ''.csv''"

definition high_auto_cor ::
  "config \<Rightarrow> (string \<Rightarrow> error + frame) \<Rightarrow> string \<Rightarrow> error + (key \<times> string) list" where
  "high_auto_cor cfg read_csv test_type =
     (case read_csv (csv_path cfg (test_type @ ''_log_returns'')) of
        Inl e \<Rightarrow> Inl e
      | Inr df \<Rightarrow> reduce_counts df)"

text \<open>The number of rows of a table with a given pair and outcome.\<close>

definition outcome_count :: "frame \<Rightarrow> key \<Rightarrow> string \<Rightarrow> nat" where
  "outcome_count df k res = count_list (triples df) (fst k, snd k, res)"

definition pairs :: "frame \<Rightarrow> key list" where
  "pairs df = map (\<lambda>(c, tf, res). (c, tf)) (triples df)"

section \<open>Properties of the threshold reducer\<close>

lemma grouped_df_Inr:
  "grouped_df df = Inr g \<Longrightarrow>
     g = map (\<lambda>t. (t, count_list (triples df) t)) (sort (remdups (triples df)))"
  by (auto simp: grouped_df_def split: list.splits)

lemma filter_eq_distinct:
  "distinct xs \<Longrightarrow> x \<in> set xs \<Longrightarrow> filter (\<lambda>t. t = x) xs = [x]"
proof (induction xs)
  case Nil
  then show ?case by simp
next
  case (Cons a xs)
  show ?case
  proof (cases "a = x")
    case True
    with Cons.prems have "x \<notin> set xs" by simp
    then have "filter (\<lambda>t. t = x) xs = []" by (auto simp: filter_empty_conv)
    with True show ?thesis by simp
  next
    case False
    with Cons show ?thesis by simp
  qed
qed

lemma pivot_cell_grouped:
  assumes "g = map (\<lambda>t. (t, count_list ts t)) (sort (remdups ts))"
  shows "pivot_cell g k res = real (count_list ts (fst k, snd k, res))"
proof -
  let ?t = "(fst k, snd k, res)"
  let ?ks = "sort (remdups ts)"
  have d: "distinct ?ks" by simp
  have f: "filter (\<lambda>(t, n). t = ?t) g = map (\<lambda>t. (t, count_list ts t)) (filter (\<lambda>t. t = ?t) ?ks)"
    unfolding assms by (simp add: filter_map o_def)
  show ?thesis
  proof (cases "?t \<in> set ts")
    case True
    then have "?t \<in> set ?ks" by simp
    with d have "filter (\<lambda>t. t = ?t) ?ks = [?t]"
      by (rule filter_eq_distinct)
    then show ?thesis
      by (simp add: pivot_cell_def f mean_def)
  next
    case False
    then have "filter (\<lambda>t. t = ?t) ?ks = []"
      by (auto simp: filter_empty_conv)
    moreover from False have "count_list ts ?t = 0"
      by (simp add: count_list_0_iff)
    ultimately show ?thesis
      by (simp add: pivot_cell_def f)
  qed
qed

lemma sort_remdups_map:
  fixes f :: "'a::linorder \<Rightarrow> 'b::linorder"
  shows "sort (remdups (map f (sort (remdups xs)))) = sort (remdups (map f xs))"
proof (rule sorted_distinct_set_unique)
  show "set (sort (remdups (map f (sort (remdups xs))))) = set (sort (remdups (map f xs)))"
    by simp
qed simp_all

lemma reduce_counts_eq:
  assumes "missing_columns df [''Coin'', ''Time Frame'', ''Result''] = []"
  shows "reduce_counts df =
     (if ''Autocorrelated'' \<in> (\<lambda>(c, tf, res). res) ` set (triples df)
      then Inr (map (\<lambda>k. (k, predominantly (real (outcome_count df k ''Autocorrelated''))))
                  (sort (remdups (pairs df))))
      else Inl (KeyError ''Autocorrelated''))"
proof -
  let ?ts = "triples df"
  let ?g = "map (\<lambda>t. (t, count_list ?ts t)) (sort (remdups ?ts))"
  have g: "grouped_df df = Inr ?g"
    using assms by (simp add: grouped_df_def)
  have o: "set (outcomes (pivot_table ?g)) = (\<lambda>(c, tf, res). res) ` set ?ts"
    by (force simp: pivot_table_def)
  have m: "map (\<lambda>((c, tf, res), n). (c, tf)) ?g = map (\<lambda>(c, tf, res). (c, tf)) (sort (remdups ?ts))"
    by (simp add: o_def split_def)
  have e: "entries (pivot_table ?g) = map (\<lambda>k. (k, pivot_cell ?g k)) (sort (remdups (pairs df)))"
    unfolding pivot_table_def pairs_def by (simp only: m sort_remdups_map pivot.simps)
  have c: "pivot_cell ?g k res = real (outcome_count df k res)" for k res
    by (simp add: pivot_cell_grouped [OF refl] outcome_count_def)
  show ?thesis
    unfolding reduce_counts_def g by (simp add: Let_def o e c o_def)
qed

text \<open>The label a (possibly failed) reduction gives to a pair.\<close>

definition label_of :: "error + (key \<times> string) list \<Rightarrow> key \<Rightarrow> string option" where
  "label_of res k = (case res of Inl e \<Rightarrow> None | Inr t \<Rightarrow> map_of t k)"

lemma map_of_tabulate:
  "map_of (map (\<lambda>k. (k, f k)) ks) k = (if k \<in> set ks then Some (f k) else None)"
  by (induction ks) auto

lemma outcome_count_pos:
  "0 < outcome_count df k res \<Longrightarrow> res \<in> (\<lambda>(c, tf, res). res) ` set (triples df)"
proof -
  assume "0 < outcome_count df k res"
  then have "(fst k, snd k, res) \<in> set (triples df)"
    unfolding outcome_count_def using count_list_0_iff [of "triples df" "(fst k, snd k, res)"]
    by auto
  then show ?thesis by force
qed

lemma label_of_reduce_counts:
  assumes "missing_columns df [''Coin'', ''Time Frame'', ''Result''] = []"
    and "k \<in> set (pairs df)"
    and "''Autocorrelated'' \<in> (\<lambda>(c, tf, res). res) ` set (triples df)"
  shows "label_of (reduce_counts df) k =
           Some (predominantly (real (outcome_count df k ''Autocorrelated'')))"
  using assms(2,3) by (simp add: reduce_counts_eq [OF assms(1)] label_of_def map_of_tabulate)

text \<open>
  C2 (threshold boundary). For a table with the columns Coin, Time Frame and Result and
  any of its (Coin, Time Frame) groups, \<^verbatim>\<open>high_auto_cor\<close> labels the pair
  "Autocorrelated" exactly when the group holds more than 49 rows with the outcome
  "Autocorrelated"; 49 such rows give "Not Autocorrelated" and 50 give "Autocorrelated".
\<close>

theorem high_auto_cor_threshold:
  assumes "read_csv (csv_path cfg (test_type @ ''_log_returns'')) = Inr df"
    and "missing_columns df [''Coin'', ''Time Frame'', ''Result''] = []"
    and "k \<in> set (pairs df)"
  shows "(label_of (high_auto_cor cfg read_csv test_type) k = Some ''Autocorrelated''
            \<longleftrightarrow> 49 < outcome_count df k ''Autocorrelated'')
       \<and> (outcome_count df k ''Autocorrelated'' = 49
            \<longrightarrow> label_of (high_auto_cor cfg read_csv test_type) k = Some ''Not Autocorrelated'')
       \<and> (outcome_count df k ''Autocorrelated'' = 50
            \<longrightarrow> label_of (high_auto_cor cfg read_csv test_type) k = Some ''Autocorrelated'')"
proof -
  let ?n = "outcome_count df k ''Autocorrelated''"
  have h: "high_auto_cor cfg read_csv test_type = reduce_counts df"
    by (simp add: high_auto_cor_def assms(1))
  have pos: "label_of (reduce_counts df) k = Some (predominantly (real ?n))" if "0 < ?n"
    using label_of_reduce_counts [OF assms(2,3)] outcome_count_pos [OF that] by blast
  have none: "label_of (reduce_counts df) k \<noteq> Some ''Autocorrelated''" if "?n = 0"
  proof (cases "''Autocorrelated'' \<in> (\<lambda>(c, tf, res). res) ` set (triples df)")
    case True
    then show ?thesis
      using label_of_reduce_counts [OF assms(2,3)] that by (simp add: predominantly_def)
  next
    case False
    then show ?thesis
      by (simp add: reduce_counts_eq [OF assms(2)] label_of_def)
  qed
  have a: "label_of (reduce_counts df) k = Some ''Autocorrelated'' \<longleftrightarrow> 49 < ?n"
  proof (cases "?n = 0")
    case True
    with none show ?thesis by simp
  next
    case False
    then show ?thesis using pos by (simp add: predominantly_def)
  qed
  have b: "?n = 49 \<longrightarrow> label_of (reduce_counts df) k = Some ''Not Autocorrelated''"
    using pos by (simp add: predominantly_def)
  have c: "?n = 50 \<longrightarrow> label_of (reduce_counts df) k = Some ''Autocorrelated''"
    using pos by (simp add: predominantly_def)
  from a b c show ?thesis unfolding h by blast
qed

text \<open>
  An example input: fifty repetitions for BTC, all "Autocorrelated", and fifty for ETH,
  forty-nine of them "Autocorrelated".
\<close>

definition demo_config :: config where
  "demo_config = \<lparr>statistics_dir = ''data/statistics'', timeframes = [''1d''],
     all_models = [''ARIMA''], log_returns_pred = ''log_returns''\<rparr>"

definition btc_eth_runs :: frame where
  "btc_eth_runs =
     \<lparr>columns = [''Coin'', ''Time Frame'', ''Result''],
      rows = replicate 50 [''BTC'', ''1d'', ''Autocorrelated'']
           @ replicate 49 [''ETH'', ''1d'', ''Autocorrelated'']
           @ [[''ETH'', ''1d'', ''Not Autocorrelated'']]\<rparr>"

lemma count_list_replicate:
  "count_list (replicate n x) y = (if x = y then n else 0)"
  by (induction n) auto

lemma triples_btc_eth_runs:
  "triples btc_eth_runs =
     replicate 50 (''BTC'', ''1d'', ''Autocorrelated'')
     @ replicate 49 (''ETH'', ''1d'', ''Autocorrelated'')
     @ [(''ETH'', ''1d'', ''Not Autocorrelated'')]"
  by (simp add: triples_def btc_eth_runs_def cell_def)

theorem high_auto_cor_threshold_witness:
  "label_of (high_auto_cor demo_config (\<lambda>p. Inr btc_eth_runs) ''Ljung-Box'') (''BTC'', ''1d'')
     = Some ''Autocorrelated''
   \<and> label_of (high_auto_cor demo_config (\<lambda>p. Inr btc_eth_runs) ''Ljung-Box'') (''ETH'', ''1d'')
     = Some ''Not Autocorrelated''"
proof -
  have r: "(\<lambda>p. Inr btc_eth_runs) (csv_path demo_config (''Ljung-Box'' @ ''_log_returns''))
             = (Inr btc_eth_runs :: error + frame)"
    by simp
  have m: "missing_columns btc_eth_runs [''Coin'', ''Time Frame'', ''Result''] = []"
    by (simp add: missing_columns_def btc_eth_runs_def)
  have b: "(''BTC'', ''1d'') \<in> set (pairs btc_eth_runs)"
    by (simp add: pairs_def triples_btc_eth_runs)
  have e: "(''ETH'', ''1d'') \<in> set (pairs btc_eth_runs)"
    by (simp add: pairs_def triples_btc_eth_runs)
  have cb: "outcome_count btc_eth_runs (''BTC'', ''1d'') ''Autocorrelated'' = 50"
    by (simp add: outcome_count_def triples_btc_eth_runs count_list_replicate)
  have ce: "outcome_count btc_eth_runs (''ETH'', ''1d'') ''Autocorrelated'' = 49"
    by (simp add: outcome_count_def triples_btc_eth_runs count_list_replicate)
  show ?thesis
    using high_auto_cor_threshold [OF r m b] high_auto_cor_threshold [OF r m e] cb ce
    by simp
qed

text \<open>
  Whenever \<^verbatim>\<open>high_auto_cor\<close> returns a table, the table has one row per distinct
  (Coin, Time Frame) pair of the input, in ascending order, and each label is one of the
  two strings.
\<close>

lemma reduce_counts_returned:
  assumes "reduce_counts df = Inr t"
  shows "map fst t = sort (remdups (pairs df))
       \<and> list_all (\<lambda>(k, l). l = ''Autocorrelated'' \<or> l = ''Not Autocorrelated'') t"
proof -
  have m: "missing_columns df [''Coin'', ''Time Frame'', ''Result''] = []"
    using assms by (auto simp: reduce_counts_def grouped_df_def split: list.splits)
  have t: "t = map (\<lambda>k. (k, predominantly (real (outcome_count df k ''Autocorrelated''))))
                 (sort (remdups (pairs df)))"
    using assms unfolding reduce_counts_eq [OF m] by (simp split: if_splits)
  show ?thesis
    unfolding t by (simp add: o_def list_all_iff predominantly_def)
qed

text \<open>
  \<^verbatim>\<open>high_auto_cor\<close> returns no table when no run of the input has the outcome
  "Autocorrelated": the pivot table then has no column of that name and
  \<^verbatim>\<open>pivot_df["Autocorrelated"]\<close> raises \<^verbatim>\<open>KeyError\<close>.
\<close>

lemma high_auto_cor_no_positive_outcome:
  "high_auto_cor demo_config
     (\<lambda>p. Inr \<lparr>columns = [''Coin'', ''Time Frame'', ''Result''],
                rows = [[''BTC'', ''1d'', ''Not Autocorrelated'']]\<rparr>) ''Ljung-Box''
   = Inl (KeyError ''Autocorrelated'')"
  by (simp add: high_auto_cor_def reduce_counts_def grouped_df_def missing_columns_def
      triples_def cell_def pivot_table_def)

text \<open>
  C10 (label codomain and key uniqueness). A row of the table that \<^verbatim>\<open>high_auto_cor\<close>
  returns holds a pair (Coin, Time Frame) and its label (Predominantly) and nothing else.
  The table has exactly one row for each distinct pair of the input table, in ascending
  order of the pairs, and every label is one of the two strings "Autocorrelated" and
  "Not Autocorrelated".
\<close>

theorem high_auto_cor_returned_table:
  assumes "read_csv (csv_path cfg (test_type @ ''_log_returns'')) = Inr df"
    and "high_auto_cor cfg read_csv test_type = Inr t"
  shows "map fst t = sort (remdups (pairs df))
       \<and> distinct (map fst t)
       \<and> set (map fst t) = set (pairs df)
       \<and> list_all (\<lambda>(k, l). l = ''Autocorrelated'' \<or> l = ''Not Autocorrelated'') t"
proof -
  from assms have "reduce_counts df = Inr t"
    by (simp add: high_auto_cor_def)
  from reduce_counts_returned [OF this] show ?thesis
    by simp
qed

section \<open>Combining the two test families in \<^verbatim>\<open>auto_correlation\<close>\<close>

text \<open>
  \<^verbatim>\<open>pd.merge(ljung, breusch, how="outer", on=["Coin", "Time Frame"])\<close>: every row of
  the left table with each right row of the same key, or with a missing right value when
  there is none; then the right rows whose key the left table lacks; ordered by key.
\<close>

definition merge_outer ::
  "(key \<times> 'a) list \<Rightarrow> (key \<times> 'b) list \<Rightarrow> (key \<times> 'a option \<times> 'b option) list" where
  "merge_outer left right =
     sort_key fst
       (concat (map (\<lambda>(k, a). if filter (\<lambda>(k', b). k' = k) right = []
                          then [(k, Some a, None)]
                          else map (\<lambda>(k', b). (k, Some a, Some b))
                                 (filter (\<lambda>(k', b). k' = k) right)) left)
        @ map (\<lambda>(k, b). (k, None, Some b)) (filter (\<lambda>(k, b). k \<notin> set (map fst left)) right))"

text \<open>
  \<^verbatim>\<open>np.where((... == "Autocorrelated") & (... == "Autocorrelated"), ...)\<close>: a missing
  value equals no string.
\<close>

definition overlap :: "(key \<times> string) list \<Rightarrow> (key \<times> string) list \<Rightarrow> (key \<times> string) list" where
  "overlap ljung breusch =
     map (\<lambda>(k, predominantly_ljung, predominantly_breusch).
            (k, if predominantly_ljung = Some ''Autocorrelated''
                   \<and> predominantly_breusch = Some ''Autocorrelated''
                then ''Autocorrelated'' else ''Not Autocorrelated''))
       (merge_outer ljung breusch)"

text \<open>The table \<^verbatim>\<open>overlap[["Coin", "Time Frame", "Result"]]\<close> of \<^verbatim>\<open>auto_correlation\<close>.\<close>

definition auto_correlation_overlap ::
  "config \<Rightarrow> (string \<Rightarrow> error + frame) \<Rightarrow> error + (key \<times> string) list" where
  "auto_correlation_overlap cfg read_csv =
     (case high_auto_cor cfg read_csv ''Ljung-Box'' of
        Inl e \<Rightarrow> Inl e
      | Inr ljung \<Rightarrow>
          (case high_auto_cor cfg read_csv ''Breusch-Godfrey'' of
             Inl e \<Rightarrow> Inl e
           | Inr breusch \<Rightarrow> Inr (overlap ljung breusch)))"

text \<open>The rows of a keyed table for one pair, and the labels they carry.\<close>

definition rows_with :: "key \<Rightarrow> (key \<times> 'a) list \<Rightarrow> (key \<times> 'a) list" where
  "rows_with k t = filter (\<lambda>r. fst r = k) t"

definition combined_labels :: "(key \<times> string) list \<Rightarrow> key \<Rightarrow> string list" where
  "combined_labels t k = map snd (rows_with k t)"

lemma sort_key_same:
  "\<forall>x\<in>set xs. f x = c \<Longrightarrow> sort_key f xs = xs"
proof (induction xs)
  case Nil
  then show ?case by simp
next
  case (Cons x xs)
  then have "sort_key f xs = xs" by simp
  moreover have "insort_key f x xs = x # xs"
    using Cons.prems by (intro insort_is_Cons) simp
  ultimately show ?case by simp
qed

lemma rows_with_sort_key:
  "rows_with k (sort_key fst t) = rows_with k t"
proof -
  have "rows_with k (sort_key fst t) = sort_key fst (rows_with k t)"
    unfolding rows_with_def by (rule filter_sort)
  also have "\<dots> = rows_with k t"
    by (rule sort_key_same [where c = k]) (simp add: rows_with_def)
  finally show ?thesis .
qed

lemma rows_with_concat:
  assumes "\<And>x r. x \<in> set xs \<Longrightarrow> r \<in> set (F x) \<Longrightarrow> fst r = fst x"
  shows "rows_with k (concat (map F xs)) = concat (map F (rows_with k xs))"
  using assms
proof (induction xs)
  case Nil
  then show ?case by (simp add: rows_with_def)
next
  case (Cons x xs)
  have ih: "rows_with k (concat (map F xs)) = concat (map F (rows_with k xs))"
    using Cons by simp
  have fx: "filter (\<lambda>r. fst r = k) (F x) = (if fst x = k then F x else [])"
    using Cons.prems [of x] by (auto simp: filter_empty_conv filter_id_conv)
  show ?case
    using ih by (simp add: rows_with_def fx)
qed

lemma rows_with_distinct:
  "distinct (map fst t) \<Longrightarrow> (k, a) \<in> set t \<Longrightarrow> rows_with k t = [(k, a)]"
proof (induction t)
  case Nil
  then show ?case by simp
next
  case (Cons x t)
  show ?case
  proof (cases "x = (k, a)")
    case True
    with Cons.prems have "k \<notin> fst ` set t" by simp
    then have "filter (\<lambda>r. fst r = k) t = []"
      by (auto simp: filter_empty_conv)
    with True show ?thesis by (simp add: rows_with_def)
  next
    case False
    with Cons.prems have "(k, a) \<in> set t" "fst x \<noteq> k"
      by (auto simp: image_iff)
    with Cons show ?thesis by (simp add: rows_with_def)
  qed
qed

lemma rows_with_absent:
  "k \<notin> fst ` set t \<Longrightarrow> rows_with k t = []"
  by (auto simp: rows_with_def filter_empty_conv)

lemma rows_with_merge_outer:
  "rows_with k (merge_outer left right) =
     concat (map (\<lambda>(k, a). if filter (\<lambda>(k', b). k' = k) right = []
                          then [(k, Some a, None)]
                          else map (\<lambda>(k', b). (k, Some a, Some b))
                                 (filter (\<lambda>(k', b). k' = k) right)) (rows_with k left))
     @ (if k \<in> fst ` set left then []
        else map (\<lambda>(k, b). (k, None, Some b)) (rows_with k right))"
proof -
  let ?F = "\<lambda>(k, a). if filter (\<lambda>(k', b). k' = k) right = []
                          then [(k, Some a, None)]
                          else map (\<lambda>(k', b). (k, Some a, Some b))
                                 (filter (\<lambda>(k', b). k' = k) right)"
  have 1: "rows_with k (concat (map ?F left)) = concat (map ?F (rows_with k left))"
    by (rule rows_with_concat) (auto split: if_splits)
  have 2: "rows_with k (map (\<lambda>(k, b). (k, None, Some b)) (filter (\<lambda>(k, b). k \<notin> set (map fst left)) right))
           = (if k \<in> fst ` set left then []
              else map (\<lambda>(k, b). (k, None, Some b)) (rows_with k right))"
    unfolding rows_with_def
    by (induction right) (auto simp: split_def)
  have "rows_with k (merge_outer left right)
        = rows_with k (concat (map ?F left)
            @ map (\<lambda>(k, b). (k, None, Some b)) (filter (\<lambda>(k, b). k \<notin> set (map fst left)) right))"
    unfolding merge_outer_def by (rule rows_with_sort_key)
  also have "\<dots> = rows_with k (concat (map ?F left))
       @ rows_with k (map (\<lambda>(k, b). (k, None, Some b)) (filter (\<lambda>(k, b). k \<notin> set (map fst left)) right))"
    by (simp add: rows_with_def)
  finally show ?thesis by (simp only: 1 2)
qed

lemma filter_key_rows_with:
  "filter (\<lambda>(k', b). k' = k) t = rows_with k t"
  by (simp add: rows_with_def split_def)

lemma combined_labels_both:
  assumes "distinct (map fst ljung)" "distinct (map fst breusch)"
    and "(k, a) \<in> set ljung" "(k, b) \<in> set breusch"
  shows "combined_labels (overlap ljung breusch) k =
           [if a = ''Autocorrelated'' \<and> b = ''Autocorrelated''
            then ''Autocorrelated'' else ''Not Autocorrelated'']"
proof -
  have l: "rows_with k ljung = [(k, a)]"
    using assms(1,3) by (rule rows_with_distinct)
  have r: "rows_with k breusch = [(k, b)]"
    using assms(2,4) by (rule rows_with_distinct)
  have kin: "k \<in> fst ` set ljung"
    using assms(3) by force
  have m: "rows_with k (merge_outer ljung breusch) = [(k, Some a, Some b)]"
    unfolding rows_with_merge_outer l using kin by (simp add: filter_key_rows_with r)
  have "rows_with k (overlap ljung breusch) =
          map (\<lambda>(k, predominantly_ljung, predominantly_breusch).
            (k, if predominantly_ljung = Some ''Autocorrelated''
                   \<and> predominantly_breusch = Some ''Autocorrelated''
                then ''Autocorrelated'' else ''Not Autocorrelated''))
            (rows_with k (merge_outer ljung breusch))"
    unfolding overlap_def rows_with_def by (simp add: filter_map o_def split_def)
  then show ?thesis
    unfolding combined_labels_def m by simp
qed


lemma high_auto_cor_distinct:
  assumes "high_auto_cor cfg read_csv test_type = Inr t"
  shows "distinct (map fst t)"
proof -
  obtain df where "reduce_counts df = Inr t"
    using assms by (auto simp: high_auto_cor_def split: sum.splits)
  then have "map fst t = sort (remdups (pairs df))"
    using reduce_counts_returned by blast
  then show ?thesis by simp
qed

lemma combined_labels_ljung_only:
  assumes "distinct (map fst ljung)" and "(k, a) \<in> set ljung" and "k \<notin> fst ` set breusch"
  shows "rows_with k (merge_outer ljung breusch) = [(k, Some a, None)]"
    and "combined_labels (overlap ljung breusch) k = [''Not Autocorrelated'']"
proof -
  have l: "rows_with k ljung = [(k, a)]"
    using assms(1,2) by (rule rows_with_distinct)
  have r: "rows_with k breusch = []"
    using assms(3) by (rule rows_with_absent)
  have kin: "k \<in> fst ` set ljung"
    using assms(2) by force
  show m: "rows_with k (merge_outer ljung breusch) = [(k, Some a, None)]"
    unfolding rows_with_merge_outer l using kin by (simp add: filter_key_rows_with r)
  have "rows_with k (overlap ljung breusch) =
          map (\<lambda>(k, predominantly_ljung, predominantly_breusch).
            (k, if predominantly_ljung = Some ''Autocorrelated''
                   \<and> predominantly_breusch = Some ''Autocorrelated''
                then ''Autocorrelated'' else ''Not Autocorrelated''))
            (rows_with k (merge_outer ljung breusch))"
    unfolding overlap_def rows_with_def by (simp add: filter_map o_def split_def)
  then show "combined_labels (overlap ljung breusch) k = [''Not Autocorrelated'']"
    unfolding combined_labels_def m by simp
qed

lemma combined_labels_breusch_only:
  assumes "distinct (map fst breusch)" and "(k, b) \<in> set breusch" and "k \<notin> fst ` set ljung"
  shows "rows_with k (merge_outer ljung breusch) = [(k, None, Some b)]"
    and "combined_labels (overlap ljung breusch) k = [''Not Autocorrelated'']"
proof -
  have r: "rows_with k breusch = [(k, b)]"
    using assms(1,2) by (rule rows_with_distinct)
  have l: "rows_with k ljung = []"
    using assms(3) by (rule rows_with_absent)
  show m: "rows_with k (merge_outer ljung breusch) = [(k, None, Some b)]"
    unfolding rows_with_merge_outer l using assms(3) by (simp add: r)
  have "rows_with k (overlap ljung breusch) =
          map (\<lambda>(k, predominantly_ljung, predominantly_breusch).
            (k, if predominantly_ljung = Some ''Autocorrelated''
                   \<and> predominantly_breusch = Some ''Autocorrelated''
                then ''Autocorrelated'' else ''Not Autocorrelated''))
            (rows_with k (merge_outer ljung breusch))"
    unfolding overlap_def rows_with_def by (simp add: filter_map o_def split_def)
  then show "combined_labels (overlap ljung breusch) k = [''Not Autocorrelated'']"
    unfolding combined_labels_def m by simp
qed

text \<open>
  C1 (agreement conjunction). For a (Coin, Time Frame) pair present in the reduced tables
  of both families, \<^verbatim>\<open>auto_correlation\<close> has exactly one combined row; its label is
  "Autocorrelated" if and only if both families' labels are "Autocorrelated", and it is
  "Not Autocorrelated" as soon as one family's label is "Not Autocorrelated".
\<close>

theorem auto_correlation_agreement:
  assumes "high_auto_cor cfg read_csv ''Ljung-Box'' = Inr ljung"
    and "high_auto_cor cfg read_csv ''Breusch-Godfrey'' = Inr breusch"
    and "(k, a) \<in> set ljung" and "(k, b) \<in> set breusch"
  shows "auto_correlation_overlap cfg read_csv = Inr (overlap ljung breusch)
       \<and> (combined_labels (overlap ljung breusch) k = [''Autocorrelated'']
            \<longleftrightarrow> a = ''Autocorrelated'' \<and> b = ''Autocorrelated'')
       \<and> (a = ''Not Autocorrelated'' \<or> b = ''Not Autocorrelated''
            \<longrightarrow> combined_labels (overlap ljung breusch) k = [''Not Autocorrelated''])"
proof -
  have c: "combined_labels (overlap ljung breusch) k =
           [if a = ''Autocorrelated'' \<and> b = ''Autocorrelated''
            then ''Autocorrelated'' else ''Not Autocorrelated'']"
    using high_auto_cor_distinct [OF assms(1)] high_auto_cor_distinct [OF assms(2)] assms(3,4)
    by (rule combined_labels_both)
  have o: "auto_correlation_overlap cfg read_csv = Inr (overlap ljung breusch)"
    by (simp add: auto_correlation_overlap_def assms(1,2))
  show ?thesis
    unfolding c o by auto
qed

text \<open>An example with BTC in both families, ETH only in Ljung-Box and SOL only in Breusch-Godfrey.\<close>

definition breusch_runs :: frame where
  "breusch_runs =
     \<lparr>columns = [''Coin'', ''Time Frame'', ''Result''],
      rows = replicate 50 [''BTC'', ''1d'', ''Autocorrelated'']
           @ replicate 50 [''SOL'', ''1d'', ''Autocorrelated'']\<rparr>"

definition demo_read_csv :: "string \<Rightarrow> error + frame" where
  "demo_read_csv p =
     (if p = ''data/statistics/Ljung-Box_log_returns.csv'' then Inr btc_eth_runs
      else if p = ''data/statistics/Breusch-Godfrey_log_returns.csv'' then Inr breusch_runs
      else Inl (FileNotFoundError p))"

lemma triples_breusch_runs:
  "triples breusch_runs =
     replicate 50 (''BTC'', ''1d'', ''Autocorrelated'')
     @ replicate 50 (''SOL'', ''1d'', ''Autocorrelated'')"
  by (simp add: triples_def breusch_runs_def cell_def)

lemma sorted_pairs_btc_eth: "sort (remdups (pairs btc_eth_runs)) = [(''BTC'', ''1d''), (''ETH'', ''1d'')]"
  unfolding pairs_def triples_btc_eth_runs by code_simp

lemma sorted_pairs_breusch: "sort (remdups (pairs breusch_runs)) = [(''BTC'', ''1d''), (''SOL'', ''1d'')]"
  unfolding pairs_def triples_breusch_runs by code_simp

lemma high_auto_cor_demo_ljung:
  "high_auto_cor demo_config demo_read_csv ''Ljung-Box''
     = Inr [((''BTC'', ''1d''), ''Autocorrelated''), ((''ETH'', ''1d''), ''Not Autocorrelated'')]"
proof -
  have m: "missing_columns btc_eth_runs [''Coin'', ''Time Frame'', ''Result''] = []"
    by (simp add: missing_columns_def btc_eth_runs_def)
  have r: "demo_read_csv (csv_path demo_config (''Ljung-Box'' @ ''_log_returns'')) = Inr btc_eth_runs"
    by (simp add: demo_read_csv_def csv_path_def demo_config_def)
  show ?thesis
    unfolding high_auto_cor_def r
    by (simp add: reduce_counts_eq [OF m] sorted_pairs_btc_eth outcome_count_def
        triples_btc_eth_runs count_list_replicate predominantly_def)
qed

lemma high_auto_cor_demo_breusch:
  "high_auto_cor demo_config demo_read_csv ''Breusch-Godfrey''
     = Inr [((''BTC'', ''1d''), ''Autocorrelated''), ((''SOL'', ''1d''), ''Autocorrelated'')]"
proof -
  have m: "missing_columns breusch_runs [''Coin'', ''Time Frame'', ''Result''] = []"
    by (simp add: missing_columns_def breusch_runs_def)
  have r: "demo_read_csv (csv_path demo_config (''Breusch-Godfrey'' @ ''_log_returns'')) = Inr breusch_runs"
    by (simp add: demo_read_csv_def csv_path_def demo_config_def)
  show ?thesis
    unfolding high_auto_cor_def r
    by (simp add: reduce_counts_eq [OF m] sorted_pairs_breusch outcome_count_def
        triples_breusch_runs count_list_replicate predominantly_def)
qed

theorem auto_correlation_agreement_witness:
  "combined_labels
     (overlap [((''BTC'', ''1d''), ''Autocorrelated''), ((''ETH'', ''1d''), ''Not Autocorrelated'')]
        [((''BTC'', ''1d''), ''Autocorrelated''), ((''SOL'', ''1d''), ''Autocorrelated'')])
     (''BTC'', ''1d'') = [''Autocorrelated'']"
  using auto_correlation_agreement [OF high_auto_cor_demo_ljung high_auto_cor_demo_breusch,
      of "(''BTC'', ''1d'')" "''Autocorrelated''" "''Autocorrelated''"]
  by simp

theorem high_auto_cor_returned_table_witness:
  "map fst [((''BTC'', ''1d''), ''Autocorrelated''), ((''ETH'', ''1d''), ''Not Autocorrelated'')]
     = sort (remdups (pairs btc_eth_runs))
   \<and> set (pairs btc_eth_runs) = {(''BTC'', ''1d''), (''ETH'', ''1d'')}
   \<and> list_all (\<lambda>(k, l). l = ''Autocorrelated'' \<or> l = ''Not Autocorrelated'')
        [((''BTC'', ''1d''), ''Autocorrelated''), ((''ETH'', ''1d''), ''Not Autocorrelated'')]"
proof -
  have r: "demo_read_csv (csv_path demo_config (''Ljung-Box'' @ ''_log_returns'')) = Inr btc_eth_runs"
    by (simp add: demo_read_csv_def csv_path_def demo_config_def)
  show ?thesis
    using high_auto_cor_returned_table [OF r high_auto_cor_demo_ljung]
    by auto
qed

section \<open>The RMSE joiner \<^verbatim>\<open>merge_rmse\<close>\<close>

text \<open>
  \<^verbatim>\<open>read_rmse_csv\<close> belongs to \<^verbatim>\<open>experiment/rmse.py\<close> and is a parameter here: for a
  prediction table and a time frame it yields a table indexed by coin, whose rows hold
  the average errors of the models. The loop tags every row of a chunk with its time
  frame and its coin; \<^verbatim>\<open>pd.concat\<close> refuses an empty list of chunks.
\<close>

fun rmse_dfs ::
  "(string \<Rightarrow> error + (string \<times> 'e) list) \<Rightarrow> string list \<Rightarrow> error + (key \<times> 'e) list list" where
  "rmse_dfs read [] = Inr []"
| "rmse_dfs read (time_frame # tfs) =
     (case read time_frame of
        Inl e \<Rightarrow> Inl e
      | Inr rmse_df \<Rightarrow>
          (case rmse_dfs read tfs of
             Inl e \<Rightarrow> Inl e
           | Inr rest \<Rightarrow> Inr (map (\<lambda>(coin, errs). ((coin, time_frame), errs)) rmse_df # rest)))"

definition rmse_table ::
  "config \<Rightarrow> (string \<Rightarrow> string \<Rightarrow> error + (string \<times> 'e) list) \<Rightarrow> error + (key \<times> 'e) list" where
  "rmse_table cfg read_rmse_csv =
     (case rmse_dfs (read_rmse_csv (log_returns_pred cfg)) (timeframes cfg) of
        Inl e \<Rightarrow> Inl e
      | Inr chunks \<Rightarrow>
          if chunks = [] then Inl (ValueError ''No objects to concatenate'')
          else Inr (concat chunks))"

text \<open>
  \<^verbatim>\<open>pd.merge(df, rmse_df, how="inner", on=["Coin", "Time Frame"])\<close>: every row of the
  left table with each right row of the same key, in the order of the left table.
\<close>

definition merge_inner :: "(key \<times> 'a) list \<Rightarrow> (key \<times> 'b) list \<Rightarrow> (key \<times> 'a \<times> 'b) list" where
  "merge_inner left right =
     concat (map (\<lambda>(k, a). map (\<lambda>(k', b). (k, a, b)) (filter (\<lambda>(k', b). k' = k) right)) left)"

definition merge_rmse ::
  "config \<Rightarrow> (string \<Rightarrow> string \<Rightarrow> error + (string \<times> 'e) list) \<Rightarrow> (key \<times> 'a) list
     \<Rightarrow> error + (key \<times> 'a \<times> 'e) list" where
  "merge_rmse cfg read_rmse_csv df =
     (case rmse_table cfg read_rmse_csv of
        Inl e \<Rightarrow> Inl e
      | Inr rmse_df \<Rightarrow> Inr (merge_inner df rmse_df))"

text \<open>The rows of a keyed table that belong to one time frame.\<close>

definition in_time_frame :: "string \<Rightarrow> (key \<times> 'a) list \<Rightarrow> (key \<times> 'a) list" where
  "in_time_frame tf t = filter (\<lambda>r. snd (fst r) = tf) t"

lemma set_merge_inner:
  "r \<in> set (merge_inner left right)
     \<longleftrightarrow> (\<exists>k a b. r = (k, a, b) \<and> (k, a) \<in> set left \<and> (k, b) \<in> set right)"
proof (induction left)
  case Nil
  show ?case by (simp add: merge_inner_def)
next
  case (Cons x left)
  obtain k a where x: "x = (k, a)" by (cases x)
  have "merge_inner (x # left) right
          = map (\<lambda>(k', b). (k, a, b)) (filter (\<lambda>(k', b). k' = k) right) @ merge_inner left right"
    by (simp add: merge_inner_def x)
  then show ?case
    using Cons by (auto simp: x)
qed

lemma keys_merge_inner:
  "fst ` set (merge_inner left right) = fst ` set left \<inter> fst ` set right"
proof (rule set_eqI)
  fix k
  show "k \<in> fst ` set (merge_inner left right)
          \<longleftrightarrow> k \<in> fst ` set left \<inter> fst ` set right"
  proof
    assume "k \<in> fst ` set (merge_inner left right)"
    then obtain r where "r \<in> set (merge_inner left right)" "k = fst r" by blast
    then obtain a b where "(k, a) \<in> set left" "(k, b) \<in> set right"
      unfolding set_merge_inner by auto
    then show "k \<in> fst ` set left \<inter> fst ` set right" by force
  next
    assume "k \<in> fst ` set left \<inter> fst ` set right"
    then obtain a b where "(k, a) \<in> set left" "(k, b) \<in> set right" by auto
    then have "(k, a, b) \<in> set (merge_inner left right)"
      unfolding set_merge_inner by blast
    then show "k \<in> fst ` set (merge_inner left right)" by force
  qed
qed

lemma map_fst_merge_inner:
  assumes "distinct (map fst right)"
  shows "map fst (merge_inner left right) = filter (\<lambda>k. k \<in> fst ` set right) (map fst left)"
proof (induction left)
  case Nil
  show ?case by (simp add: merge_inner_def)
next
  case (Cons x left)
  obtain k a where x: "x = (k, a)" by (cases x)
  have "map fst (map (\<lambda>(k', b). (k, a, b)) (filter (\<lambda>(k', b). k' = k) right))
          = (if k \<in> fst ` set right then [k] else [])"
  proof (cases "k \<in> fst ` set right")
    case True
    then obtain b where "(k, b) \<in> set right" by force
    with assms have "rows_with k right = [(k, b)]" by (rule rows_with_distinct)
    with True show ?thesis by (simp add: filter_key_rows_with)
  next
    case False
    then have "rows_with k right = []" by (rule rows_with_absent)
    with False show ?thesis by (simp add: filter_key_rows_with)
  qed
  with Cons show ?case
    by (simp add: merge_inner_def x)
qed

lemma length_in_time_frame:
  "length (in_time_frame tf t) = length (filter (\<lambda>k. snd k = tf) (map fst t))"
  by (simp add: in_time_frame_def filter_map o_def)

lemma merge_inner_count:
  assumes "distinct (map fst left)" and "distinct (map fst right)"
  shows "length (in_time_frame tf (merge_inner left right))
           \<le> min (length (in_time_frame tf left)) (length (in_time_frame tf right))"
proof -
  let ?P = "\<lambda>k::key. snd k = tf"
  let ?J = "filter ?P (map fst (merge_inner left right))"
  have j: "?J = filter ?P (filter (\<lambda>k. k \<in> fst ` set right) (map fst left))"
    by (simp only: map_fst_merge_inner [OF assms(2)])
  have "filter ?P (filter (\<lambda>k. k \<in> fst ` set right) (map fst left))
          = filter (\<lambda>k. k \<in> fst ` set right) (filter ?P (map fst left))"
    by (simp add: conj_commute)
  then have 1: "length ?J \<le> length (filter ?P (map fst left))"
    unfolding j by (simp only: length_filter_le)
  have d: "distinct ?J"
    unfolding j using assms(1) by simp
  have "set ?J \<subseteq> set (filter ?P (map fst right))"
    unfolding j by auto
  then have "card (set ?J) \<le> card (set (filter ?P (map fst right)))"
    by (intro card_mono) simp_all
  also have "\<dots> \<le> length (filter ?P (map fst right))"
    by (rule card_length)
  finally have "card (set ?J) \<le> length (filter ?P (map fst right))" .
  then have 2: "length ?J \<le> length (filter ?P (map fst right))"
    by (simp only: distinct_card [OF d])
  have "length (in_time_frame tf (merge_inner left right)) = length ?J"
    by (rule length_in_time_frame)
  with 1 2 show ?thesis
    by (simp add: length_in_time_frame)
qed


text \<open>The number of rows of a (possibly failed) table in one time frame.\<close>

definition rows_in_time_frame :: "string \<Rightarrow> error + (key \<times> 'a) list \<Rightarrow> nat option" where
  "rows_in_time_frame tf res =
     (case res of Inl e \<Rightarrow> None | Inr t \<Rightarrow> Some (length (in_time_frame tf t)))"

text \<open>
  An RMSE provider with the coins BTC and ETH in the time frame 1d, for the model list
  of \<open>demo_config\<close>, and two labelled tables: one with a repeated pair, one without.
\<close>

definition demo_read_rmse_csv :: "string \<Rightarrow> string \<Rightarrow> error + (string \<times> (string \<Rightarrow> real)) list" where
  "demo_read_rmse_csv pred time_frame =
     (if time_frame = ''1d'' then Inr [(''BTC'', \<lambda>model. 5 / 100), (''ETH'', \<lambda>model. 10 / 100)]
      else Inl (FileNotFoundError time_frame))"

definition repeated_labels :: "(key \<times> string) list" where
  "repeated_labels =
     [((''BTC'', ''1d''), ''trend''), ((''BTC'', ''1d''), ''no trend''),
      ((''BTC'', ''1d''), ''trend'')]"

definition demo_labels :: "(key \<times> string) list" where
  "demo_labels =
     [((''BTC'', ''1d''), ''trend''), ((''ETH'', ''1d''), ''no trend''),
      ((''SOL'', ''1d''), ''trend'')]"

lemma rmse_table_demo:
  "rmse_table demo_config demo_read_rmse_csv
     = Inr [((''BTC'', ''1d''), \<lambda>model. 5 / 100), ((''ETH'', ''1d''), \<lambda>model. 10 / 100)]"
  by (simp add: rmse_table_def demo_config_def demo_read_rmse_csv_def)

text \<open>
  C4 (inner join), as stated, fails: a pair that occurs three times in the labelled table
  and once in the RMSE table gives three joined rows in its time frame, more than
  the minimum of the two row counts (3 and 2).
\<close>

theorem merge_rmse_repeated_pair:
  "rows_in_time_frame ''1d'' (merge_rmse demo_config demo_read_rmse_csv repeated_labels) = Some 3
   \<and> length (in_time_frame ''1d'' repeated_labels) = 3
   \<and> rows_in_time_frame ''1d'' (rmse_table demo_config demo_read_rmse_csv) = Some 2"
  by (simp add: rows_in_time_frame_def merge_rmse_def rmse_table_demo merge_inner_def
      in_time_frame_def repeated_labels_def)

text \<open>
  C4, amended. When the labelled table and the RMSE table each hold a (Coin, Time Frame)
  pair at most once, \<^verbatim>\<open>merge_rmse\<close> returns their inner join: in every time frame
  it has at most as many rows as either table, and the pairs of its rows are exactly
  the pairs that both tables hold, so that a row without an error entry is dropped.
\<close>

theorem merge_rmse_inner_join:
  assumes "rmse_table cfg read_rmse_csv = Inr rmse_df"
    and "distinct (map fst df)" and "distinct (map fst rmse_df)"
  shows "merge_rmse cfg read_rmse_csv df = Inr (merge_inner df rmse_df)
       \<and> length (in_time_frame tf (merge_inner df rmse_df))
           \<le> min (length (in_time_frame tf df)) (length (in_time_frame tf rmse_df))
       \<and> fst ` set (merge_inner df rmse_df) = fst ` set df \<inter> fst ` set rmse_df"
proof -
  have "merge_rmse cfg read_rmse_csv df = Inr (merge_inner df rmse_df)"
    by (simp add: merge_rmse_def assms(1))
  moreover note merge_inner_count [OF assms(2,3), of tf] keys_merge_inner [of df rmse_df]
  ultimately show ?thesis by blast
qed

theorem merge_rmse_inner_join_witness:
  "merge_rmse demo_config demo_read_rmse_csv demo_labels
     = Inr [((''BTC'', ''1d''), ''trend'', \<lambda>model. 5 / 100),
            ((''ETH'', ''1d''), ''no trend'', \<lambda>model. 10 / 100)]
   \<and> length (in_time_frame ''1d''
        (merge_inner demo_labels
           [((''BTC'', ''1d''), \<lambda>model. 5 / 100 :: real), ((''ETH'', ''1d''), \<lambda>model. 10 / 100)]))
       \<le> min 3 2"
proof -
  have d1: "distinct (map fst demo_labels)"
    by (simp add: demo_labels_def)
  have d2: "distinct (map fst [((''BTC'', ''1d''), \<lambda>model::string. 5 / 100 :: real),
      ((''ETH'', ''1d''), \<lambda>model. 10 / 100)])"
    by simp
  show ?thesis
    using merge_rmse_inner_join [OF rmse_table_demo d1 d2, of "''1d''"]
    by (simp add: merge_inner_def demo_labels_def in_time_frame_def)
qed

section \<open>Folding the directional labels in \<^verbatim>\<open>trend\<close>\<close>

text \<open>
  Python's \<^verbatim>\<open>str.replace(old, new)\<close>, which \<^verbatim>\<open>Series.str.replace\<close> applies to every
  cell: the occurrences of \<open>old\<close> are found from the left, without overlap, and each
  is replaced by \<open>new\<close>. With an empty \<open>old\<close>, \<open>new\<close> is put before every character
  and at the end.
\<close>

fun replace_from :: "string \<Rightarrow> string \<Rightarrow> string \<Rightarrow> string" where
  "replace_from old new [] = []"
| "replace_from old new (c # cs) =
     (if prefix old (c # cs) then new @ replace_from old new (drop (length old - 1) cs)
      else c # replace_from old new cs)"

definition str_replace :: "string \<Rightarrow> string \<Rightarrow> string \<Rightarrow> string" where
  "str_replace old new s =
     (if old = [] then new @ concat (map (\<lambda>c. c # new) s) else replace_from old new s)"

text \<open>
  \<^verbatim>\<open>df["Result"].str.replace("increasing", "trend")\<close>, then the same for
  \<^verbatim>\<open>"decreasing"\<close>, on the whole column.
\<close>

definition relabel :: "string list \<Rightarrow> string list" where
  "relabel result =
     map (str_replace ''decreasing'' ''trend'') (map (str_replace ''increasing'' ''trend'') result)"

text \<open>An occurrence of \<open>w\<close> in \<open>p @ s\<close> that begins inside \<open>p\<close>.\<close>

definition starts_in :: "string \<Rightarrow> string \<Rightarrow> string \<Rightarrow> bool" where
  "starts_in w p s \<longleftrightarrow> (\<exists>p1 p2. p = p1 @ p2 \<and> p2 \<noteq> [] \<and> prefix w (p2 @ s))"

lemma replace_from_prefix:
  assumes "old \<noteq> []" and "prefix old (c # cs)"
  shows "c # cs = old @ drop (length old - 1) cs"
proof -
  from assms(2) obtain s' where s': "c # cs = old @ s'"
    by (auto simp: prefix_def)
  with assms(1) obtain old' where old: "old = c # old'"
    by (cases old) auto
  with s' have "cs = old' @ s'" by simp
  then show ?thesis by (simp add: old)
qed

lemma replace_from_absent:
  "old \<noteq> [] \<Longrightarrow> \<not> sublist old s \<Longrightarrow> replace_from old new s = s"
proof (induction s)
  case Nil
  then show ?case by simp
next
  case (Cons c cs)
  from Cons.prems(2) have "\<not> prefix old (c # cs)" "\<not> sublist old cs"
    by (auto simp: sublist_Cons_right)
  with Cons show ?case by simp
qed

lemma no_new_occurrence:
  assumes "old \<noteq> []"
    and step: "\<And>p s'. \<not> sublist w (p @ old @ s') \<Longrightarrow> \<not> sublist w (p @ new @ s')"
  shows "\<not> sublist w (p @ s) \<Longrightarrow> \<not> sublist w (p @ replace_from old new s)"
proof (induction "length s" arbitrary: s p rule: less_induct)
  case less
  show ?case
  proof (cases s)
    case Nil
    with less.prems show ?thesis by simp
  next
    case (Cons c cs)
    show ?thesis
    proof (cases "prefix old (c # cs)")
      case True
      let ?s' = "drop (length old - 1) cs"
      have eq: "c # cs = old @ ?s'"
        using assms(1) True by (rule replace_from_prefix)
      have len: "length ?s' < length s"
        by (simp add: Cons)
      have "\<not> sublist w (p @ old @ ?s')"
        using less.prems unfolding Cons eq .
      then have "\<not> sublist w (p @ new @ ?s')"
        by (rule step)
      then have "\<not> sublist w ((p @ new) @ ?s')"
        by simp
      then have "\<not> sublist w ((p @ new) @ replace_from old new ?s')"
        by (rule less.hyps [OF len])
      with True show ?thesis by (simp add: Cons)
    next
      case False
      have len: "length cs < length s"
        by (simp add: Cons)
      have "\<not> sublist w ((p @ [c]) @ cs)"
        using less.prems by (simp add: Cons)
      then have "\<not> sublist w ((p @ [c]) @ replace_from old new cs)"
        by (rule less.hyps [OF len])
      with False show ?thesis by (simp add: Cons)
    qed
  qed
qed

lemma occurrence_removed:
  assumes "old \<noteq> []"
    and step: "\<And>p s'. I (p @ old @ s') \<Longrightarrow> \<not> starts_in old p (old @ s')
                 \<Longrightarrow> I (p @ new @ s') \<and> \<not> starts_in old (p @ new) s'"
  shows "\<not> starts_in old p s \<Longrightarrow> I (p @ s) \<Longrightarrow> \<not> sublist old (p @ replace_from old new s)"
proof (induction "length s" arbitrary: s p rule: less_induct)
  case less
  show ?case
  proof (cases s)
    case Nil
    have "\<not> sublist old p"
    proof
      assume "sublist old p"
      then obtain a b where "p = a @ old @ b" by (auto simp: sublist_def)
      then have "starts_in old p []"
        unfolding starts_in_def using assms(1) by (intro exI [of _ a] exI [of _ "old @ b"]) simp
      with less.prems(1) Nil show False by simp
    qed
    with Nil show ?thesis by simp
  next
    case (Cons c cs)
    show ?thesis
    proof (cases "prefix old (c # cs)")
      case True
      let ?s' = "drop (length old - 1) cs"
      have eq: "c # cs = old @ ?s'"
        using assms(1) True by (rule replace_from_prefix)
      have len: "length ?s' < length s"
        by (simp add: Cons)
      have "I (p @ old @ ?s')" "\<not> starts_in old p (old @ ?s')"
        using less.prems unfolding Cons eq by simp_all
      then have "I (p @ new @ ?s') \<and> \<not> starts_in old (p @ new) ?s'"
        by (rule step)
      then have "\<not> starts_in old (p @ new) ?s'" "I ((p @ new) @ ?s')"
        by simp_all
      then have "\<not> sublist old ((p @ new) @ replace_from old new ?s')"
        by (rule less.hyps [OF len])
      with True show ?thesis by (simp add: Cons)
    next
      case False
      have len: "length cs < length s"
        by (simp add: Cons)
      have "\<not> starts_in old (p @ [c]) cs"
      proof
        assume "starts_in old (p @ [c]) cs"
        then obtain p1 p2 where p: "p @ [c] = p1 @ p2" "p2 \<noteq> []" "prefix old (p2 @ cs)"
          by (auto simp: starts_in_def)
        from p(2) have p2: "p2 = butlast p2 @ [last p2]" by simp
        with p(1) have "p @ [c] = (p1 @ butlast p2) @ [last p2]" by simp
        then have u: "p = p1 @ butlast p2" "c = last p2" by simp_all
        show False
        proof (cases "butlast p2 = []")
          case True
          with p2 u(2) have "p2 = [c]" by simp
          with p(3) False show False by simp
        next
          case nonempty: False
          have "p2 @ cs = butlast p2 @ c # cs"
            using p2 u(2) by (metis append.assoc append_Cons append_Nil)
          with p(3) have "prefix old (butlast p2 @ c # cs)" by simp
          with u(1) nonempty have "starts_in old p (c # cs)"
            unfolding starts_in_def by blast
          with less.prems(1) Cons show False by simp
        qed
      qed
      moreover have "I ((p @ [c]) @ cs)"
        using less.prems(2) by (simp add: Cons)
      ultimately have "\<not> sublist old ((p @ [c]) @ replace_from old new cs)"
        by (rule less.hyps [OF len])
      with False show ?thesis by (simp add: Cons)
    qed
  qed
qed

lemma step_plain:
  assumes "CHR ''t'' \<notin> set w" and "CHR ''d'' \<notin> set w" and "\<not> sublist w ''trend''"
    and "\<not> sublist w (p @ old @ s')"
  shows "\<not> sublist w (p @ ''trend'' @ s')"
proof
  assume "sublist w (p @ ''trend'' @ s')"
  then consider "sublist w p" | "sublist w (''trend'' @ s')"
    | w1 w2 where "w = w1 @ w2" "suffix w1 p" "prefix w2 (''trend'' @ s')"
    unfolding sublist_append [of w p] by blast
  then show False
  proof cases
    case 1
    then have "sublist w (p @ old @ s')" by (simp add: sublist_append)
    with assms(4) show False by simp
  next
    case 2
    then consider "sublist w ''trend''" | "sublist w s'"
      | w1 w2 where "w = w1 @ w2" "suffix w1 ''trend''" "prefix w2 s'"
      unfolding sublist_append [of w "''trend''"] by blast
    then show False
    proof cases
      case 1
      with assms(3) show False by simp
    next
      case 2
      then have "sublist w (p @ old @ s')" by (simp add: sublist_append)
      with assms(4) show False by simp
    next
      case (3 w1 w2)
      show False
      proof (cases "w1 = []")
        case True
        with 3 have "sublist w s'" by auto
        then have "sublist w (p @ old @ s')" by (simp add: sublist_append)
        with assms(4) show False by simp
      next
        case False
        from 3(2) obtain z where "''trend'' = z @ w1" by (auto simp: suffix_def)
        with False have "last w1 = CHR ''d''"
          by (metis last_appendR last.simps list.distinct(1) last_ConsR)
        with False have "CHR ''d'' \<in> set w1" by (metis last_in_set)
        with 3(1) assms(2) show False by simp
      qed
    qed
  next
    case (3 w1 w2)
    show False
    proof (cases w2)
      case Nil
      with 3 have "sublist w p" by auto
      then have "sublist w (p @ old @ s')" by (simp add: sublist_append)
      with assms(4) show False by simp
    next
      case (Cons x xs)
      with 3(3) have "x = CHR ''t''" by simp
      with Cons 3(1) assms(1) show False by simp
    qed
  qed
qed

lemma starts_in_crossing:
  assumes "CHR ''t'' \<notin> set w" and "w \<noteq> []"
    and "\<not> starts_in w p (old @ s')"
    and "p = p1 @ u" and "prefix w (u @ ''trend'' @ s')"
  shows False
proof -
  from assms(5) consider "prefix w u" | v where "w = u @ v" "prefix v (''trend'' @ s')"
    unfolding prefix_append by blast
  then show False
  proof cases
    case 1
    with assms(2) have "u \<noteq> []" by auto
    moreover from 1 have "prefix w (u @ old @ s')" by (simp add: prefix_def) force
    ultimately have "starts_in w p (old @ s')"
      unfolding starts_in_def using assms(4) by blast
    with assms(3) show False by simp
  next
    case (2 v)
    show False
    proof (cases v)
      case Nil
      with 2(1) assms(2) have "u \<noteq> []" "prefix w (u @ old @ s')" by simp_all
      then have "starts_in w p (old @ s')"
        unfolding starts_in_def using assms(4) by blast
      with assms(3) show False by simp
    next
      case (Cons x xs)
      with 2(2) have "x = CHR ''t''" by simp
      with Cons 2(1) assms(1) show False by simp
    qed
  qed
qed

lemma starts_in_split:
  assumes "starts_in w (p @ ''trend'') s'"
  obtains p1 u where "p = p1 @ u" "prefix w (u @ ''trend'' @ s')"
    | p2 where "p2 \<noteq> []" "suffix p2 ''trend''" "prefix w (p2 @ s')"
proof -
  from assms obtain p1 p2 where p: "p @ ''trend'' = p1 @ p2" "p2 \<noteq> []" "prefix w (p2 @ s')"
    by (auto simp: starts_in_def)
  from p(1) consider u where "p = p1 @ u" "u @ ''trend'' = p2"
    | u where "p @ u = p1" "''trend'' = u @ p2"
    unfolding append_eq_append_conv2 by blast
  then show thesis
  proof cases
    case (1 u)
    with p(3) have "prefix w (u @ ''trend'' @ s')" by auto
    with 1(1) that(1) show thesis by blast
  next
    case (2 u)
    then have "suffix p2 ''trend''" by (auto simp: suffix_def)
    with p(2,3) that(2) show thesis by blast
  qed
qed

lemma step_increasing:
  assumes "\<not> starts_in ''increasing'' p (''increasing'' @ s')"
  shows "\<not> starts_in ''increasing'' (p @ ''trend'') s'"
proof
  assume "starts_in ''increasing'' (p @ ''trend'') s'"
  then show False
  proof (cases rule: starts_in_split)
    case (1 p1 u)
    show False
      by (rule starts_in_crossing [OF _ _ assms 1]) simp_all
  next
    case (2 p2)
    from 2(2) have "p2 \<in> {''trend'', ''rend'', ''end'', ''nd'', ''d'', []}"
      by (simp add: suffix_Cons)
    with 2(1,3) show False by auto
  qed
qed

lemma step_decreasing:
  assumes "\<not> sublist ''gecreasing'' (p @ ''decreasing'' @ s')"
    and "\<not> starts_in ''decreasing'' p (''decreasing'' @ s')"
  shows "\<not> sublist ''gecreasing'' (p @ ''trend'' @ s')
       \<and> \<not> starts_in ''decreasing'' (p @ ''trend'') s'"
proof
  show "\<not> sublist ''gecreasing'' (p @ ''trend'' @ s')"
    by (rule step_plain [OF _ _ _ assms(1)]) (simp_all add: sublist_code)
  show "\<not> starts_in ''decreasing'' (p @ ''trend'') s'"
  proof
    assume "starts_in ''decreasing'' (p @ ''trend'') s'"
    then show False
    proof (cases rule: starts_in_split)
      case (1 p1 u)
      show False
        by (rule starts_in_crossing [OF _ _ assms(2) 1]) simp_all
    next
      case (2 p2)
      from 2(2) have "p2 \<in> {''trend'', ''rend'', ''end'', ''nd'', ''d'', []}"
        by (simp add: suffix_Cons)
      with 2(1,3) have "prefix ''ecreasing'' s'" by auto
      then obtain s'' where "s' = ''ecreasing'' @ s''" by (auto simp: prefix_def)
      then have "p @ ''decreasing'' @ s' = (p @ ''decreasin'') @ ''gecreasing'' @ s''"
        by simp
      then have "sublist ''gecreasing'' (p @ ''decreasing'' @ s')"
        unfolding sublist_def by blast
      with assms(1) show False by simp
    qed
  qed
qed

lemma starts_in_Nil: "\<not> starts_in w [] s"
  by (simp add: starts_in_def)

lemma replace_increasing:
  "\<not> sublist ''increasing'' (replace_from ''increasing'' ''trend'' s)"
  using occurrence_removed [where old = "''increasing''" and new = "''trend''"
      and I = "\<lambda>x. True" and p = "[]" and s = s] step_increasing
  by (simp add: starts_in_Nil)

lemma replace_decreasing:
  assumes "\<not> sublist ''gecreasing'' s"
  shows "\<not> sublist ''decreasing'' (replace_from ''decreasing'' ''trend'' s)"
  using occurrence_removed [where old = "''decreasing''" and new = "''trend''"
      and I = "\<lambda>x. \<not> sublist ''gecreasing'' x" and p = "[]" and s = s] step_decreasing assms
  by (simp add: starts_in_Nil)

lemma replace_keeps_absent:
  assumes "CHR ''t'' \<notin> set w" and "CHR ''d'' \<notin> set w" and "\<not> sublist w ''trend''"
    and "old \<noteq> []" and "\<not> sublist w s"
  shows "\<not> sublist w (replace_from old ''trend'' s)"
  using no_new_occurrence [where old = old and new = "''trend''" and w = w and p = "[]" and s = s]
    step_plain [OF assms(1,2,3)] assms(4,5)
  by simp

text \<open>The two replacements of one label, and what they leave.\<close>

definition fold_direction :: "string \<Rightarrow> string" where
  "fold_direction l = str_replace ''decreasing'' ''trend'' (str_replace ''increasing'' ''trend'' l)"

lemma relabel_map: "relabel result = map fold_direction result"
  by (simp add: relabel_def fold_direction_def)

lemma fold_direction_clean:
  assumes "\<not> sublist ''gecreasing'' l"
  shows "\<not> sublist ''increasing'' (fold_direction l)"
    and "\<not> sublist ''decreasing'' (fold_direction l)"
proof -
  let ?a = "replace_from ''increasing'' ''trend'' l"
  have a1: "\<not> sublist ''increasing'' ?a"
    by (rule replace_increasing)
  have a2: "\<not> sublist ''gecreasing'' ?a"
    by (rule replace_keeps_absent [OF _ _ _ _ assms]) (simp_all add: sublist_code)
  have *: "fold_direction l = replace_from ''decreasing'' ''trend'' ?a"
    by (simp add: fold_direction_def str_replace_def)
  show "\<not> sublist ''increasing'' (fold_direction l)"
    unfolding * by (rule replace_keeps_absent [OF _ _ _ _ a1]) (simp_all add: sublist_code)
  show "\<not> sublist ''decreasing'' (fold_direction l)"
    unfolding * using a2 by (rule replace_decreasing)
qed

lemma fold_direction_fixed:
  assumes "\<not> sublist ''increasing'' l" and "\<not> sublist ''decreasing'' l"
  shows "fold_direction l = l"
  using assms by (simp add: fold_direction_def str_replace_def replace_from_absent)

text \<open>
  The replacement works on substrings. In a text where the end of one directional word
  runs into the rest of "decreasing", replacing one occurrence completes another:
  "decreasingecreasing" becomes "trendecreasing", which a second application turns into
  "trentrend". No outcome of a trend test is such a text, and without the text
  "gecreasing" in a label a second application changes nothing.
\<close>

lemma relabel_overlapping_words:
  "relabel [''decreasingecreasing''] = [''trendecreasing'']
   \<and> relabel (relabel [''decreasingecreasing'']) = [''trentrend'']"
  by (simp add: relabel_def str_replace_def)

lemma relabel_idempotent_apart:
  assumes "\<forall>l\<in>set result. \<not> sublist ''gecreasing'' l"
  shows "relabel (relabel result) = relabel result"
proof -
  have "fold_direction (fold_direction l) = fold_direction l" if "l \<in> set result" for l
  proof -
    from that assms have "\<not> sublist ''gecreasing'' l" by blast
    then show ?thesis
      by (intro fold_direction_fixed fold_direction_clean)
  qed
  then show ?thesis
    by (simp add: relabel_map)
qed




section \<open>The majority vote \<^verbatim>\<open>find_majority\<close>\<close>

text \<open>
  \<^verbatim>\<open>Counter(row)\<close> counts the values of the row in a dictionary, which keeps the order
  in which the values first occur: \<^verbatim>\<open>mapping[elem] = mapping.get(elem, 0) + 1\<close>.
\<close>

fun count_elements :: "'a list \<Rightarrow> ('a \<times> nat) list \<Rightarrow> ('a \<times> nat) list" where
  "count_elements [] mapping = mapping"
| "count_elements (elem # elems) mapping =
     count_elements elems
       (AList.update elem ((case map_of mapping elem of None \<Rightarrow> 0 | Some n \<Rightarrow> n) + 1) mapping)"

definition counter :: "'a list \<Rightarrow> ('a \<times> nat) list" where
  "counter row = count_elements row []"

text \<open>
  \<^verbatim>\<open>most_common(1)\<close> is \<^verbatim>\<open>heapq.nlargest(1, items, key=itemgetter(1))\<close>, that is the
  \<^verbatim>\<open>max\<close> of the items by count: the first item of greatest count, or nothing for
  an empty counter.
\<close>

fun max_by_count :: "('a \<times> nat) \<Rightarrow> ('a \<times> nat) list \<Rightarrow> ('a \<times> nat)" where
  "max_by_count best [] = best"
| "max_by_count best (item # items) =
     max_by_count (if snd best < snd item then item else best) items"

definition most_common1 :: "('a \<times> nat) list \<Rightarrow> ('a \<times> nat) list" where
  "most_common1 items = (case items of [] \<Rightarrow> [] | item # rest \<Rightarrow> [max_by_count item rest])"

definition find_majority :: "'a list \<Rightarrow> error + 'a" where
  "find_majority row =
     (case most_common1 (counter row) of
        [] \<Rightarrow> Inl IndexError
      | (most_common_result, freq) # _ \<Rightarrow> Inr most_common_result)"

text \<open>\<^verbatim>\<open>df.apply(f, axis=1)\<close>: \<open>f\<close> on every row in turn; the first failure ends it.\<close>

fun apply_rows :: "('a \<Rightarrow> error + 'b) \<Rightarrow> 'a list \<Rightarrow> error + 'b list" where
  "apply_rows f [] = Inr []"
| "apply_rows f (r # rs) =
     (case f r of
        Inl e \<Rightarrow> Inl e
      | Inr v \<Rightarrow> (case apply_rows f rs of Inl e \<Rightarrow> Inl e | Inr vs \<Rightarrow> Inr (v # vs)))"

text \<open>
  The labelled table of \<^verbatim>\<open>trend\<close>: \<^verbatim>\<open>find_majority\<close> receives the whole row, the
  cells of the columns Coin and Time Frame included; the result becomes the column
  Result, the three named columns are selected and the directional labels folded.
\<close>

definition trend_labels :: "frame \<Rightarrow> error + (key \<times> string) list" where
  "trend_labels df =
     (case apply_rows find_majority (rows df) of
        Inl e \<Rightarrow> Inl e
      | Inr result \<Rightarrow>
          (case missing_columns df [''Coin'', ''Time Frame''] of
             c # _ \<Rightarrow> Inl (KeyError c)
           | [] \<Rightarrow>
               Inr (zip (map (\<lambda>r. (cell (columns df) r ''Coin'', cell (columns df) r ''Time Frame''))
                           (rows df))
                      (relabel result))))"

lemma map_of_count_elements:
  "map_of (count_elements xs m) x =
     (if x \<in> set xs \<or> x \<in> fst ` set m
      then Some (count_list xs x + (case map_of m x of None \<Rightarrow> 0 | Some n \<Rightarrow> n))
      else None)"
proof (induction xs arbitrary: m)
  case Nil
  show ?case
    by (auto simp: map_of_eq_None_iff split: option.splits)
next
  case (Cons a xs)
  show ?case
    by (simp add: Cons update_conv' dom_update map_of_eq_None_iff [symmetric] split: option.splits)
      (force simp: map_of_eq_None_iff)+
qed

lemma distinct_count_elements:
  "distinct (map fst m) \<Longrightarrow> distinct (map fst (count_elements xs m))"
  by (induction xs arbitrary: m) (simp_all add: distinct_update)

lemma counter_entries:
  "(x, n) \<in> set (counter row) \<longleftrightarrow> x \<in> set row \<and> n = count_list row x"
proof -
  have d: "distinct (map fst (counter row))"
    by (simp add: counter_def distinct_count_elements)
  have m: "map_of (counter row) x = (if x \<in> set row then Some (count_list row x) else None)"
    by (simp add: counter_def map_of_count_elements)
  show ?thesis
    using map_of_eq_Some_iff [OF d, of x n] m by (auto split: if_splits)
qed

lemma max_by_count_in: "max_by_count best items \<in> set (best # items)"
  by (induction items arbitrary: best) (auto split: if_splits)

lemma max_by_count_greatest:
  "i \<in> set (best # items) \<Longrightarrow> snd i \<le> snd (max_by_count best items)"
proof (induction items arbitrary: best i)
  case Nil
  then show ?case by simp
next
  case (Cons item items)
  let ?b = "if snd best < snd item then item else best"
  have "snd ?b \<le> snd (max_by_count ?b items)"
    using Cons.IH [of ?b ?b] by simp
  then have b: "snd best \<le> snd (max_by_count ?b items)" "snd item \<le> snd (max_by_count ?b items)"
    by (auto split: if_splits)
  from Cons.prems consider "i = best" | "i = item" | "i \<in> set items" by auto
  then show ?case
    using b Cons.IH [of i ?b] by cases auto
qed

text \<open>
  What \<^verbatim>\<open>find_majority\<close> returns occurs in the row at least as often as every other
  value of the row; a value that occurs more often than every other is returned.
\<close>

lemma find_majority_greatest:
  assumes "find_majority row = Inr v"
  shows "v \<in> set row \<and> (\<forall>u\<in>set row. count_list row u \<le> count_list row v)"
proof -
  from assms obtain item rest freq where c: "counter row = item # rest"
    and m: "max_by_count item rest = (v, freq)"
    by (auto simp: find_majority_def most_common1_def split: list.splits prod.splits)
  have "(v, freq) \<in> set (counter row)"
    using max_by_count_in [of item rest] by (simp add: c m)
  then have v: "v \<in> set row" "freq = count_list row v"
    by (simp_all add: counter_entries)
  have "count_list row u \<le> count_list row v" if "u \<in> set row" for u
  proof -
    from that have "(u, count_list row u) \<in> set (item # rest)"
      using counter_entries [of u "count_list row u" row] by (simp add: c)
    from max_by_count_greatest [OF this] show ?thesis by (simp add: m v)
  qed
  with v show ?thesis by blast
qed

lemma find_majority_returns:
  assumes "row \<noteq> []"
  shows "\<exists>v. find_majority row = Inr v"
proof -
  from assms obtain x where "x \<in> set row" by (cases row) auto
  then have "(x, count_list row x) \<in> set (counter row)" by (simp add: counter_entries)
  then have "counter row \<noteq> []" by auto
  then show ?thesis
    by (auto simp: find_majority_def most_common1_def split: list.splits prod.splits)
qed

lemma find_majority_strict:
  assumes "v \<in> set row" and "\<forall>u\<in>set row. u \<noteq> v \<longrightarrow> count_list row u < count_list row v"
  shows "find_majority row = Inr v"
proof -
  from assms(1) have "row \<noteq> []" by auto
  then obtain v' where v': "find_majority row = Inr v'"
    using find_majority_returns by blast
  from find_majority_greatest [OF v'] assms have "v' = v"
    by (metis not_le)
  with v' show ?thesis by simp
qed

text \<open>
  C3 (majority vote). The claim takes the vote among the test-outcome columns of a row.
  \<^verbatim>\<open>df.apply(find_majority, axis=1)\<close> hands the whole row to \<^verbatim>\<open>find_majority\<close>, so
  the cells of Coin and Time Frame are counted as well: when no outcome occurs twice, as
  for the row (BTC, 1d, increasing, no trend), the first value of the row wins and the
  label is the coin name, not an outcome of a test.
\<close>

theorem trend_labels_coin_wins:
  "trend_labels \<lparr>columns = [''Coin'', ''Time Frame'', ''Cox-Stuart'', ''Mann-Kendall''],
                  rows = [[''BTC'', ''1d'', ''increasing'', ''no trend'']]\<rparr>
     = Inr [((''BTC'', ''1d''), ''BTC'')]"
  by (simp add: trend_labels_def find_majority_def most_common1_def counter_def
      missing_columns_def cell_def relabel_def str_replace_def)

section \<open>The analyses and the tests they run\<close>

text \<open>
  An analysis reads its table with \<^verbatim>\<open>pd.read_csv\<close>, joins the errors that
  \<^verbatim>\<open>read_rmse_csv\<close> provides and hands columns of the joined table to a test of
  scipy or statsmodels. These functions are not part of the module; an environment holds
  them. \<^verbatim>\<open>read_rmse_csv\<close> yields, for a time frame, rows indexed by coin under the
  columns \<open>rmse_columns\<close> (one per model), among which are neither \<^verbatim>\<open>Coin\<close> nor
  \<^verbatim>\<open>Time Frame\<close>. A test returns a value of type \<open>'r\<close> or raises.
  \<open>anova_lm\<close> stands for \<^verbatim>\<open>sm.stats.anova_lm(ols(formula, df).fit(), typ=2)\<close> and
  \<open>ols_p_value\<close> for the p-value that \<^verbatim>\<open>seasonality\<close> reads off the fit of
  \<^verbatim>\<open>sm.OLS(y, X)\<close>. The rows of a table have one cell per column, and no cell of a
  label column is empty.
\<close>

record 'r env =
  read_csv :: "string \<Rightarrow> error + frame"
  read_rmse_csv :: "string \<Rightarrow> string \<Rightarrow> error + (string \<times> string list) list"
  rmse_columns :: "string list"
  mannwhitneyu :: "string list list \<Rightarrow> error + 'r"
  anova_lm :: "string \<Rightarrow> frame \<Rightarrow> error + 'r"
  ols_p_value :: "string list \<Rightarrow> string list \<Rightarrow> error + 'r"

text \<open>
  What a run leaves behind: the calls of tests, each with the model of its loop iteration
  and the arguments handed to the test (for Mann-Whitney U also the name of the label
  column of the iteration), and the values printed.
\<close>

datatype test =
    MannWhitneyU string string "string list list"
  | ANOVA string string frame
  | OLS string "string list" "string list"

datatype 'r printed =
    Results "(string \<times> 'r) list"
  | AnovaTable string 'r
  | ValueCounts "(string \<times> nat) list"

record 'r run =
  tests :: "test list"
  stdout :: "'r printed list"

definition print :: "'r printed \<Rightarrow> 'r run \<Rightarrow> 'r run" where
  "print out s = s\<lparr>stdout := stdout s @ [out]\<rparr>"

definition called :: "test \<Rightarrow> 'r run \<Rightarrow> 'r run" where
  "called t s = s\<lparr>tests := tests s @ [t]\<rparr>"

text \<open>\<^verbatim>\<open>df[c]\<close> and \<^verbatim>\<open>Series.unique()\<close>, which keeps the order of first occurrence.\<close>

definition column :: "frame \<Rightarrow> string \<Rightarrow> error + string list" where
  "column df c =
     (if c \<in> set (columns df) then Inr (map (\<lambda>r. cell (columns df) r c) (rows df))
      else Inl (KeyError c))"

definition unique :: "'a list \<Rightarrow> 'a list" where
  "unique xs = rev (remdups (rev xs))"

text \<open>
  \<^verbatim>\<open>[df[df[label] == result][model] for result in df[label].unique()]\<close>: the errors of
  a model, one group per value of the label column.
\<close>

definition groups :: "frame \<Rightarrow> string \<Rightarrow> string \<Rightarrow> error + string list list" where
  "groups df label model =
     (case column df label of
        Inl e \<Rightarrow> Inl e
      | Inr labels \<Rightarrow>
          apply_rows
            (\<lambda>result. column (df\<lparr>rows := filter (\<lambda>r. cell (columns df) r label = result) (rows df)\<rparr>) model)
            (unique labels))"

text \<open>
  The loop \<^verbatim>\<open>for model in config.all_models: ... results[model] = mannwhitneyu(*groups)\<close>
  that \<^verbatim>\<open>trend\<close>, \<^verbatim>\<open>uncon_het\<close>, \<^verbatim>\<open>cond_het\<close> and \<^verbatim>\<open>stochasticity\<close> each contain.
\<close>

fun mannwhitneyu_loop ::
  "'r env \<Rightarrow> frame \<Rightarrow> string \<Rightarrow> string list \<Rightarrow> (string \<times> 'r) list \<Rightarrow> 'r run
     \<Rightarrow> (error + (string \<times> 'r) list) \<times> 'r run" where
  "mannwhitneyu_loop w df label [] results s = (Inr results, s)"
| "mannwhitneyu_loop w df label (model # models) results s =
     (case groups df label model of
        Inl e \<Rightarrow> (Inl e, s)
      | Inr gs \<Rightarrow>
          (case mannwhitneyu w gs of
             Inl e \<Rightarrow> (Inl e, called (MannWhitneyU label model gs) s)
           | Inr res \<Rightarrow>
               mannwhitneyu_loop w df label models (AList.update model res results)
                 (called (MannWhitneyU label model gs) s)))"

text \<open>
  \<^verbatim>\<open>merge_rmse\<close> on tables with named columns: the rows are joined as above; a column
  name that both tables have is suffixed on either side.
\<close>

definition keyed :: "frame \<Rightarrow> (key \<times> string list) list" where
  "keyed df =
     map (\<lambda>r. ((cell (columns df) r ''Coin'', cell (columns df) r ''Time Frame''), r)) (rows df)"

definition merged_columns :: "string list \<Rightarrow> string list \<Rightarrow> string list" where
  "merged_columns left right =
     map (\<lambda>c. if c \<in> set right then c @ ''_x'' else c) left
     @ map (\<lambda>c. if c \<in> set left then c @ ''_y'' else c) right"

definition merge_rmse_frame :: "'r env \<Rightarrow> config \<Rightarrow> frame \<Rightarrow> error + frame" where
  "merge_rmse_frame w cfg df =
     (case merge_rmse cfg (read_rmse_csv w) (keyed df) of
        Inl e \<Rightarrow> Inl e
      | Inr joined \<Rightarrow>
          (case missing_columns df [''Coin'', ''Time Frame''] of
             c # _ \<Rightarrow> Inl (KeyError c)
           | [] \<Rightarrow>
               Inr \<lparr>columns = merged_columns (columns df) (rmse_columns w),
                    rows = map (\<lambda>(k, r, errs). r @ errs) joined\<rparr>))"

text \<open>A table of labelled pairs as a table with the columns Coin, Time Frame, Result.\<close>

definition labelled_frame :: "(key \<times> string) list \<Rightarrow> frame" where
  "labelled_frame t =
     \<lparr>columns = [''Coin'', ''Time Frame'', ''Result''],
      rows = map (\<lambda>((coin, time_frame), result). [coin, time_frame, result]) t\<rparr>"

subsection \<open>\<^verbatim>\<open>anova\<close> and \<^verbatim>\<open>auto_correlation\<close>\<close>

definition formula :: "string \<Rightarrow> string" where
  \<open>formula model = model @ '' ~ C(Result) + C(Q("Time Frame")) + C(Result):C(Q("Time Frame"))''\<close>

fun anova_loop :: "'r env \<Rightarrow> frame \<Rightarrow> string list \<Rightarrow> 'r run \<Rightarrow> (error + unit) \<times> 'r run" where
  "anova_loop w df [] s = (Inr (), s)"
| "anova_loop w df (model # models) s =
     (case anova_lm w (formula model) df of
        Inl e \<Rightarrow> (Inl e, called (ANOVA model (formula model) df) s)
      | Inr table \<Rightarrow>
          anova_loop w df models
            (print (AnovaTable model table) (called (ANOVA model (formula model) df) s)))"

definition anova :: "'r env \<Rightarrow> config \<Rightarrow> frame \<Rightarrow> 'r run \<Rightarrow> (error + unit) \<times> 'r run" where
  "anova w cfg df s = anova_loop w df (all_models cfg) s"

definition auto_correlation :: "'r env \<Rightarrow> config \<Rightarrow> 'r run \<Rightarrow> (error + unit) \<times> 'r run" where
  "auto_correlation w cfg s =
     (case auto_correlation_overlap cfg (read_csv w) of
        Inl e \<Rightarrow> (Inl e, s)
      | Inr labelled \<Rightarrow>
          (case merge_rmse_frame w cfg (labelled_frame labelled) of
             Inl e \<Rightarrow> (Inl e, s)
           | Inr df \<Rightarrow> anova w cfg df s))"

subsection \<open>\<^verbatim>\<open>trend\<close>\<close>

definition trend :: "'r env \<Rightarrow> config \<Rightarrow> 'r run \<Rightarrow> (error + unit) \<times> 'r run" where
  "trend w cfg s =
     (case read_csv w (csv_path cfg ''trend_results_log_returns'') of
        Inl e \<Rightarrow> (Inl e, s)
      | Inr df \<Rightarrow>
          (case trend_labels df of
             Inl e \<Rightarrow> (Inl e, s)
           | Inr labelled \<Rightarrow>
               (case merge_rmse_frame w cfg (labelled_frame labelled) of
                  Inl e \<Rightarrow> (Inl e, s)
                | Inr df \<Rightarrow>
                    (case mannwhitneyu_loop w df ''Result'' (all_models cfg) [] s of
                       (Inl e, s') \<Rightarrow> (Inl e, s')
                     | (Inr results, s') \<Rightarrow> (Inr (), print (Results results) s')))))"

subsection \<open>\<^verbatim>\<open>seasonality\<close>\<close>

fun ols_loop ::
  "'r env \<Rightarrow> frame \<Rightarrow> string list \<Rightarrow> (string \<times> 'r) list \<Rightarrow> 'r run
     \<Rightarrow> (error + (string \<times> 'r) list) \<times> 'r run" where
  "ols_loop w df [] results s = (Inr results, s)"
| "ols_loop w df (forecasting_model # models) results s =
     (case column df ''Seasonal Strength'' of
        Inl e \<Rightarrow> (Inl e, s)
      | Inr X \<Rightarrow>
          (case column df forecasting_model of
             Inl e \<Rightarrow> (Inl e, s)
           | Inr y \<Rightarrow>
               (case ols_p_value w y X of
                  Inl e \<Rightarrow> (Inl e, called (OLS forecasting_model y X) s)
                | Inr p_value_seasonal_strength \<Rightarrow>
                    ols_loop w df models
                      (AList.update forecasting_model p_value_seasonal_strength results)
                      (called (OLS forecasting_model y X) s))))"

definition seasonality :: "'r env \<Rightarrow> config \<Rightarrow> 'r run \<Rightarrow> (error + unit) \<times> 'r run" where
  "seasonality w cfg s =
     (case read_csv w (csv_path cfg ''stl_seasonality_log_returns'') of
        Inl e \<Rightarrow> (Inl e, s)
      | Inr df \<Rightarrow>
          (case merge_rmse_frame w cfg df of
             Inl e \<Rightarrow> (Inl e, s)
           | Inr df \<Rightarrow>
               (case ols_loop w df (all_models cfg) [] s of
                  (Inl e, s') \<Rightarrow> (Inl e, s')
                | (Inr results, s') \<Rightarrow> (Inr (), print (Results results) s'))))"

subsection \<open>\<^verbatim>\<open>heteroskedasticity\<close>\<close>

definition uncon_het :: "'r env \<Rightarrow> config \<Rightarrow> 'r run \<Rightarrow> (error + unit) \<times> 'r run" where
  "uncon_het w cfg s =
     (case read_csv w (csv_path cfg ''unconditional_heteroskedasticity_log_returns'') of
        Inl e \<Rightarrow> (Inl e, s)
      | Inr df \<Rightarrow>
          (case merge_rmse_frame w cfg df of
             Inl e \<Rightarrow> (Inl e, s)
           | Inr df \<Rightarrow>
               (case mannwhitneyu_loop w df ''Breusch-Pagan'' (all_models cfg) [] s of
                  (Inl e, s') \<Rightarrow> (Inl e, s')
                | (Inr breusch_results, s') \<Rightarrow>
                    (case mannwhitneyu_loop w df ''Goldfeld-Quandt'' (all_models cfg) [] s' of
                       (Inl e, s'') \<Rightarrow> (Inl e, s'')
                     | (Inr goldfeld_results, s'') \<Rightarrow>
                         (Inr (), print (Results goldfeld_results)
                                    (print (Results breusch_results) s''))))))"

definition heteroskedasticity :: "'r env \<Rightarrow> config \<Rightarrow> 'r run \<Rightarrow> (error + unit) \<times> 'r run" where
  "heteroskedasticity w cfg s = uncon_het w cfg s"

definition cond_het :: "'r env \<Rightarrow> config \<Rightarrow> 'r run \<Rightarrow> (error + unit) \<times> 'r run" where
  "cond_het w cfg s =
     (case read_csv w (csv_path cfg ''cond_heteroskedasticity_log_returns'') of
        Inl e \<Rightarrow> (Inl e, s)
      | Inr df \<Rightarrow>
          (case merge_rmse_frame w cfg df of
             Inl e \<Rightarrow> (Inl e, s)
           | Inr df \<Rightarrow>
               (case mannwhitneyu_loop w df ''result'' (all_models cfg) [] s of
                  (Inl e, s') \<Rightarrow> (Inl e, s')
                | (Inr results, s') \<Rightarrow> (Inr (), print (Results results) s'))))"

subsection \<open>\<^verbatim>\<open>stochasticity\<close>\<close>

text \<open>
  \<^verbatim>\<open>print(df["Result"].value_counts())\<close> comes before the join; the printed counts are
  kept here in the order of first occurrence of their values.
\<close>

definition stochasticity :: "'r env \<Rightarrow> config \<Rightarrow> 'r run \<Rightarrow> (error + unit) \<times> 'r run" where
  "stochasticity w cfg s =
     (case read_csv w (csv_path cfg ''hurst_log_returns'') of
        Inl e \<Rightarrow> (Inl e, s)
      | Inr df \<Rightarrow>
          (case column df ''Result'' of
             Inl e \<Rightarrow> (Inl e, s)
           | Inr labels \<Rightarrow>
               (case merge_rmse_frame w cfg df of
                  Inl e \<Rightarrow> (Inl e, print (ValueCounts (counter labels)) s)
                | Inr df \<Rightarrow>
                    (case mannwhitneyu_loop w df ''Result'' (all_models cfg) []
                            (print (ValueCounts (counter labels)) s) of
                       (Inl e, s') \<Rightarrow> (Inl e, s')
                     | (Inr results, s') \<Rightarrow> (Inr (), print (Results results) s')))))"

subsection \<open>The analyses by name\<close>

datatype analysis =
    AutoCorrelation | Trend | Seasonality | Heteroskedasticity | ConditionalHeteroskedasticity
  | Stochasticity

fun run_analysis :: "'r env \<Rightarrow> config \<Rightarrow> analysis \<Rightarrow> 'r run \<Rightarrow> (error + unit) \<times> 'r run" where
  "run_analysis w cfg AutoCorrelation s = auto_correlation w cfg s"
| "run_analysis w cfg Trend s = trend w cfg s"
| "run_analysis w cfg Seasonality s = seasonality w cfg s"
| "run_analysis w cfg Heteroskedasticity s = heteroskedasticity w cfg s"
| "run_analysis w cfg ConditionalHeteroskedasticity s = cond_het w cfg s"
| "run_analysis w cfg Stochasticity s = stochasticity w cfg s"

text \<open>The table that an analysis reads first.\<close>

fun input_csv :: "analysis \<Rightarrow> string" where
  "input_csv AutoCorrelation = ''Ljung-Box_log_returns''"
| "input_csv Trend = ''trend_results_log_returns''"
| "input_csv Seasonality = ''stl_seasonality_log_returns''"
| "input_csv Heteroskedasticity = ''unconditional_heteroskedasticity_log_returns''"
| "input_csv ConditionalHeteroskedasticity = ''cond_heteroskedasticity_log_returns''"
| "input_csv Stochasticity = ''hurst_log_returns''"

subsection \<open>The tests of a completed analysis\<close>

text \<open>
  The cells under a column, and an error column partitioned by a label column: one group
  for each distinct label, in the order in which the labels first occur, that holds the
  errors of the rows with this label in the order of the rows.
\<close>

definition series :: "frame \<Rightarrow> string \<Rightarrow> string list" where
  "series df c = map (\<lambda>r. cell (columns df) r c) (rows df)"

definition label_partition :: "'l list \<Rightarrow> 'e list \<Rightarrow> 'e list list" where
  "label_partition labels errors =
     map (\<lambda>v. map snd (filter (\<lambda>(l, e). l = v) (zip labels errors))) (unique labels)"

text \<open>
  The table that an analysis joins with the errors, and the joined table: for
  \<^verbatim>\<open>auto_correlation\<close> and \<^verbatim>\<open>trend\<close> the labelled pairs, for the others the table
  read.
\<close>

fun labelled_table :: "'r env \<Rightarrow> config \<Rightarrow> analysis \<Rightarrow> error + frame" where
  "labelled_table w cfg AutoCorrelation =
     (case auto_correlation_overlap cfg (read_csv w) of
        Inl e \<Rightarrow> Inl e
      | Inr labelled \<Rightarrow> Inr (labelled_frame labelled))"
| "labelled_table w cfg Trend =
     (case read_csv w (csv_path cfg ''trend_results_log_returns'') of
        Inl e \<Rightarrow> Inl e
      | Inr df \<Rightarrow>
          (case trend_labels df of
             Inl e \<Rightarrow> Inl e
           | Inr labelled \<Rightarrow> Inr (labelled_frame labelled)))"
| "labelled_table w cfg Seasonality = read_csv w (csv_path cfg ''stl_seasonality_log_returns'')"
| "labelled_table w cfg Heteroskedasticity =
     read_csv w (csv_path cfg ''unconditional_heteroskedasticity_log_returns'')"
| "labelled_table w cfg ConditionalHeteroskedasticity =
     read_csv w (csv_path cfg ''cond_heteroskedasticity_log_returns'')"
| "labelled_table w cfg Stochasticity = read_csv w (csv_path cfg ''hurst_log_returns'')"

definition joined_table :: "'r env \<Rightarrow> config \<Rightarrow> analysis \<Rightarrow> error + frame" where
  "joined_table w cfg a =
     (case labelled_table w cfg a of
        Inl e \<Rightarrow> Inl e
      | Inr df \<Rightarrow> merge_rmse_frame w cfg df)"

text \<open>
  The Mann-Whitney U comparison of a model over its errors partitioned by a label column,
  and the tests of each analysis on its joined table, in the order of
  \<^verbatim>\<open>config.all_models\<close>.
\<close>

definition comparison :: "frame \<Rightarrow> string \<Rightarrow> string \<Rightarrow> test" where
  "comparison df label model =
     MannWhitneyU label model (label_partition (series df label) (series df model))"

fun tests_of :: "config \<Rightarrow> analysis \<Rightarrow> frame \<Rightarrow> test list" where
  "tests_of cfg AutoCorrelation df = map (\<lambda>model. ANOVA model (formula model) df) (all_models cfg)"
| "tests_of cfg Trend df = map (comparison df ''Result'') (all_models cfg)"
| "tests_of cfg Seasonality df =
     map (\<lambda>model. OLS model (series df model) (series df ''Seasonal Strength'')) (all_models cfg)"
| "tests_of cfg Heteroskedasticity df =
     map (comparison df ''Breusch-Pagan'') (all_models cfg)
     @ map (comparison df ''Goldfeld-Quandt'') (all_models cfg)"
| "tests_of cfg ConditionalHeteroskedasticity df = map (comparison df ''result'') (all_models cfg)"
| "tests_of cfg Stochasticity df = map (comparison df ''Result'') (all_models cfg)"

fun model_of :: "test \<Rightarrow> string" where
  "model_of (MannWhitneyU label model gs) = model"
| "model_of (ANOVA model f df) = model"
| "model_of (OLS model y X) = model"

definition tests_for :: "string \<Rightarrow> test list \<Rightarrow> test list" where
  "tests_for model ts = filter (\<lambda>t. model_of t = model) ts"

text \<open>What the environment replies to a call.\<close>

fun reply :: "'r env \<Rightarrow> test \<Rightarrow> error + 'r" where
  "reply w (MannWhitneyU label model gs) = mannwhitneyu w gs"
| "reply w (ANOVA model f df) = anova_lm w f df"
| "reply w (OLS model y X) = ols_p_value w y X"

definition returned :: "'r env \<Rightarrow> test \<Rightarrow> bool" where
  "returned w t = (case reply w t of Inl e \<Rightarrow> False | Inr r \<Rightarrow> True)"

lemma unique_set: "set (unique xs) = set xs" "distinct (unique xs)"
  by (simp_all add: unique_def)

lemma count_list_split:
  "count_list (map f (filter P xs)) x + count_list (map f (filter (\<lambda>y. \<not> P y) xs)) x
     = count_list (map f xs) x"
  by (induction xs) simp_all

lemma count_list_groups:
  assumes "distinct vs" and "fst ` set ps \<subseteq> set vs"
  shows "count_list (concat (map (\<lambda>v. map snd (filter (\<lambda>(l, e). l = v) ps)) vs)) x
           = count_list (map snd ps) x"
  using assms
proof (induction vs arbitrary: ps)
  case Nil
  then show ?case by simp
next
  case (Cons v vs)
  let ?rest = "filter (\<lambda>p. \<not> (case p of (l, e) \<Rightarrow> l = v)) ps"
  have k: "fst ` set ?rest \<subseteq> set vs"
    using Cons.prems(2) by auto
  have d: "distinct vs" and n: "v \<notin> set vs"
    using Cons.prems(1) by simp_all
  have f: "filter (\<lambda>(l, e). l = u) ps = filter (\<lambda>(l, e). l = u) ?rest" if "u \<in> set vs" for u
  proof -
    from that n have "u \<noteq> v" by blast
    then show ?thesis
      by (induction ps) auto
  qed
  have "map (\<lambda>u. map snd (filter (\<lambda>(l, e). l = u) ps)) vs
      = map (\<lambda>u. map snd (filter (\<lambda>(l, e). l = u) ?rest)) vs"
    by (rule map_cong [OF refl]) (simp only: f)
  then have r: "count_list (concat (map (\<lambda>u. map snd (filter (\<lambda>(l, e). l = u) ps)) vs)) x
      = count_list (map snd ?rest) x"
    by (simp only: Cons.IH [OF d k])
  have "count_list (concat (map (\<lambda>u. map snd (filter (\<lambda>(l, e). l = u) ps)) (v # vs))) x
      = count_list (map snd (filter (\<lambda>(l, e). l = v) ps)) x
        + count_list (concat (map (\<lambda>u. map snd (filter (\<lambda>(l, e). l = u) ps)) vs)) x"
    by simp
  also have "\<dots> = count_list (map snd (filter (\<lambda>(l, e). l = v) ps)) x
        + count_list (map snd ?rest) x"
    by (simp only: r)
  also have "\<dots> = count_list (map snd ps) x"
    by (rule count_list_split)
  finally show ?case .
qed

text \<open>
  The groups of \<open>label_partition\<close> are a partition of the error column: each error is in
  the groups as often as in the column, there are as many groups as distinct labels, and
  no group is empty.
\<close>

lemma label_partition_covers:
  assumes "length labels = length errors"
  shows "count_list (concat (label_partition labels errors)) x = count_list errors x"
    and "length (label_partition labels errors) = card (set labels)"
    and "[] \<notin> set (label_partition labels errors)"
proof -
  have "fst ` set (zip labels errors) \<subseteq> set (unique labels)"
    by (auto simp: unique_set dest: set_zip_leftD)
  from count_list_groups [OF unique_set(2) this, of x]
  show "count_list (concat (label_partition labels errors)) x = count_list errors x"
    using assms by (simp add: label_partition_def)
  show "length (label_partition labels errors) = card (set labels)"
    using distinct_card [OF unique_set(2), of labels] by (simp add: label_partition_def unique_set)
  show "[] \<notin> set (label_partition labels errors)"
  proof
    assume "[] \<in> set (label_partition labels errors)"
    then obtain v where v: "v \<in> set labels"
      and e: "filter (\<lambda>(l, e). l = v) (zip labels errors) = []"
      by (auto simp: label_partition_def unique_set)
    from v assms obtain y where "(v, y) \<in> set (zip labels errors)"
      by (metis in_set_impl_in_set_zip1)
    with e show False
      by (auto simp: filter_empty_conv)
  qed
qed

lemma column_series: "column df c = Inr xs \<Longrightarrow> xs = series df c"
  by (auto simp: column_def series_def split: if_splits)

lemma apply_rows_map:
  "(\<And>x. x \<in> set xs \<Longrightarrow> f x = Inr (g x)) \<Longrightarrow> apply_rows f xs = Inr (map g xs)"
  by (induction xs) simp_all

lemma apply_rows_raises:
  "(\<And>x. x \<in> set xs \<Longrightarrow> f x = Inl (e x)) \<Longrightarrow> apply_rows f xs = Inr ys \<Longrightarrow> xs = [] \<and> ys = []"
  by (cases xs) auto

lemma filter_zip_rows:
  "map snd (filter (\<lambda>(l, e). l = v) (zip (map f rs) (map g rs))) = map g (filter (\<lambda>r. f r = v) rs)"
  by (induction rs) simp_all

text \<open>The groups that the source computes are the partition of the error column.\<close>

lemma groups_partition:
  assumes "groups df label model = Inr gs"
  shows "gs = label_partition (series df label) (series df model)"
proof -
  let ?f = "\<lambda>result. column (df\<lparr>rows := filter (\<lambda>r. cell (columns df) r label = result) (rows df)\<rparr>) model"
  let ?g = "\<lambda>result. map (\<lambda>r. cell (columns df) r model)
                       (filter (\<lambda>r. cell (columns df) r label = result) (rows df))"
  from assms have a: "apply_rows ?f (unique (series df label)) = Inr gs"
    by (auto simp: groups_def column_def series_def split: if_splits)
  have p: "label_partition (series df label) (series df model) = map ?g (unique (series df label))"
    by (simp add: label_partition_def series_def filter_zip_rows)
  show ?thesis
  proof (cases "model \<in> set (columns df)")
    case True
    then have "apply_rows ?f (unique (series df label)) = Inr (map ?g (unique (series df label)))"
      by (intro apply_rows_map) (simp add: column_def)
    with a p show ?thesis by simp
  next
    case False
    then have "?f x = Inl (KeyError model)" for x
      by (simp add: column_def)
    from apply_rows_raises [of "unique (series df label)" ?f "\<lambda>x. KeyError model", OF this a]
    show ?thesis by (simp add: p)
  qed
qed

lemma mannwhitneyu_loop_tests:
  "mannwhitneyu_loop w df label models results s = (Inr res, s')
     \<Longrightarrow> tests s' = tests s @ map (comparison df label) models
       \<and> list_all (returned w) (map (comparison df label) models)"
proof (induction models arbitrary: results s)
  case Nil
  then show ?case by simp
next
  case (Cons model models)
  from Cons.prems obtain gs r where g: "groups df label model = Inr gs"
    and m: "mannwhitneyu w gs = Inr r"
    and l: "mannwhitneyu_loop w df label models (AList.update model r results)
       (called (MannWhitneyU label model gs) s) = (Inr res, s')"
    by (auto split: sum.splits)
  have c: "MannWhitneyU label model gs = comparison df label model"
    by (simp add: comparison_def groups_partition [OF g])
  from m have "returned w (comparison df label model)"
    by (simp add: returned_def c [symmetric])
  with Cons.IH [OF l] show ?case
    by (simp add: called_def c)
qed

lemma ols_loop_tests:
  "ols_loop w df models results s = (Inr res, s')
     \<Longrightarrow> tests s' = tests s
           @ map (\<lambda>model. OLS model (series df model) (series df ''Seasonal Strength'')) models
       \<and> list_all (returned w)
           (map (\<lambda>model. OLS model (series df model) (series df ''Seasonal Strength'')) models)"
proof (induction models arbitrary: results s)
  case Nil
  then show ?case by simp
next
  case (Cons model models)
  from Cons.prems obtain X y r where x: "column df ''Seasonal Strength'' = Inr X"
    and y: "column df model = Inr y" and p: "ols_p_value w y X = Inr r"
    and l: "ols_loop w df models (AList.update model r results) (called (OLS model y X) s)
       = (Inr res, s')"
    by (auto split: sum.splits)
  have c: "OLS model y X = OLS model (series df model) (series df ''Seasonal Strength'')"
    by (simp add: column_series [OF x] column_series [OF y])
  from p have "returned w (OLS model (series df model) (series df ''Seasonal Strength''))"
    by (simp add: returned_def c [symmetric])
  with Cons.IH [OF l] show ?case
    by (simp add: called_def c)
qed

lemma anova_loop_tests:
  "anova_loop w df models s = (Inr u, s')
     \<Longrightarrow> tests s' = tests s @ map (\<lambda>model. ANOVA model (formula model) df) models
       \<and> list_all (returned w) (map (\<lambda>model. ANOVA model (formula model) df) models)"
proof (induction models arbitrary: s)
  case Nil
  then show ?case by simp
next
  case (Cons model models)
  from Cons.prems obtain table where t: "anova_lm w (formula model) df = Inr table"
    and l: "anova_loop w df models
       (print (AnovaTable model table) (called (ANOVA model (formula model) df) s)) = (Inr u, s')"
    by (auto split: sum.splits)
  from t have "returned w (ANOVA model (formula model) df)"
    by (simp add: returned_def)
  with Cons.IH [OF l] show ?case
    by (simp add: called_def print_def)
qed

lemma auto_correlation_tests:
  assumes "auto_correlation w cfg s = (Inr u, s')"
  shows "\<exists>df. joined_table w cfg AutoCorrelation = Inr df
           \<and> tests s' = tests s @ tests_of cfg AutoCorrelation df
           \<and> list_all (returned w) (tests_of cfg AutoCorrelation df)"
proof -
  from assms obtain labelled df where "auto_correlation_overlap cfg (read_csv w) = Inr labelled"
    and "merge_rmse_frame w cfg (labelled_frame labelled) = Inr df"
    and "anova_loop w df (all_models cfg) s = (Inr u, s')"
    by (auto simp: auto_correlation_def anova_def split: sum.splits)
  then show ?thesis
    using anova_loop_tests [of w df "all_models cfg" s u s']
    by (simp add: joined_table_def)
qed

lemma trend_tests:
  assumes "trend w cfg s = (Inr u, s')"
  shows "\<exists>df. joined_table w cfg Trend = Inr df
           \<and> tests s' = tests s @ tests_of cfg Trend df
           \<and> list_all (returned w) (tests_of cfg Trend df)"
proof -
  from assms obtain csv labelled df res s1 where
    "read_csv w (csv_path cfg ''trend_results_log_returns'') = Inr csv"
    and "trend_labels csv = Inr labelled"
    and "merge_rmse_frame w cfg (labelled_frame labelled) = Inr df"
    and "mannwhitneyu_loop w df ''Result'' (all_models cfg) [] s = (Inr res, s1)"
    and "s' = print (Results res) s1"
    by (auto simp: trend_def split: sum.splits prod.splits)
  then show ?thesis
    using mannwhitneyu_loop_tests [of w df "''Result''" "all_models cfg" "[]" s res s1]
    by (simp add: joined_table_def print_def)
qed

lemma seasonality_tests:
  assumes "seasonality w cfg s = (Inr u, s')"
  shows "\<exists>df. joined_table w cfg Seasonality = Inr df
           \<and> tests s' = tests s @ tests_of cfg Seasonality df
           \<and> list_all (returned w) (tests_of cfg Seasonality df)"
proof -
  from assms obtain csv df res s1 where
    "read_csv w (csv_path cfg ''stl_seasonality_log_returns'') = Inr csv"
    and "merge_rmse_frame w cfg csv = Inr df"
    and "ols_loop w df (all_models cfg) [] s = (Inr res, s1)"
    and "s' = print (Results res) s1"
    by (auto simp: seasonality_def split: sum.splits prod.splits)
  then show ?thesis
    using ols_loop_tests [of w df "all_models cfg" "[]" s res s1]
    by (simp add: joined_table_def print_def)
qed

lemma uncon_het_tests:
  assumes "uncon_het w cfg s = (Inr u, s')"
  shows "\<exists>df. joined_table w cfg Heteroskedasticity = Inr df
           \<and> tests s' = tests s @ tests_of cfg Heteroskedasticity df
           \<and> list_all (returned w) (tests_of cfg Heteroskedasticity df)"
proof -
  from assms obtain csv df res1 s1 res2 s2 where
    "read_csv w (csv_path cfg ''unconditional_heteroskedasticity_log_returns'') = Inr csv"
    and "merge_rmse_frame w cfg csv = Inr df"
    and "mannwhitneyu_loop w df ''Breusch-Pagan'' (all_models cfg) [] s = (Inr res1, s1)"
    and "mannwhitneyu_loop w df ''Goldfeld-Quandt'' (all_models cfg) [] s1 = (Inr res2, s2)"
    and "s' = print (Results res2) (print (Results res1) s2)"
    by (auto simp: uncon_het_def split: sum.splits prod.splits)
  then show ?thesis
    using mannwhitneyu_loop_tests [of w df "''Breusch-Pagan''" "all_models cfg" "[]" s res1 s1]
      mannwhitneyu_loop_tests [of w df "''Goldfeld-Quandt''" "all_models cfg" "[]" s1 res2 s2]
    by (simp add: joined_table_def print_def)
qed

lemma cond_het_tests:
  assumes "cond_het w cfg s = (Inr u, s')"
  shows "\<exists>df. joined_table w cfg ConditionalHeteroskedasticity = Inr df
           \<and> tests s' = tests s @ tests_of cfg ConditionalHeteroskedasticity df
           \<and> list_all (returned w) (tests_of cfg ConditionalHeteroskedasticity df)"
proof -
  from assms obtain csv df res s1 where
    "read_csv w (csv_path cfg ''cond_heteroskedasticity_log_returns'') = Inr csv"
    and "merge_rmse_frame w cfg csv = Inr df"
    and "mannwhitneyu_loop w df ''result'' (all_models cfg) [] s = (Inr res, s1)"
    and "s' = print (Results res) s1"
    by (auto simp: cond_het_def split: sum.splits prod.splits)
  then show ?thesis
    using mannwhitneyu_loop_tests [of w df "''result''" "all_models cfg" "[]" s res s1]
    by (simp add: joined_table_def print_def)
qed

lemma stochasticity_tests:
  assumes "stochasticity w cfg s = (Inr u, s')"
  shows "\<exists>df. joined_table w cfg Stochasticity = Inr df
           \<and> tests s' = tests s @ tests_of cfg Stochasticity df
           \<and> list_all (returned w) (tests_of cfg Stochasticity df)"
proof -
  from assms obtain csv labels df res s1 where
    "read_csv w (csv_path cfg ''hurst_log_returns'') = Inr csv"
    and "column csv ''Result'' = Inr labels"
    and "merge_rmse_frame w cfg csv = Inr df"
    and "mannwhitneyu_loop w df ''Result'' (all_models cfg) []
           (print (ValueCounts (counter labels)) s) = (Inr res, s1)"
    and "s' = print (Results res) s1"
    by (auto simp: stochasticity_def split: sum.splits prod.splits)
  then show ?thesis
    using mannwhitneyu_loop_tests [of w df "''Result''" "all_models cfg" "[]"
        "print (ValueCounts (counter labels)) s" res s1]
    by (simp add: joined_table_def print_def)
qed

lemma tests_for_map:
  assumes "\<And>m. model_of (f m) = m"
  shows "length (tests_for model (map f models)) = count_list models model"
  by (induction models) (simp_all add: tests_for_def assms)

lemma tests_for_tests_of:
  "length (tests_for model (tests_of cfg a df))
     = (if a = Heteroskedasticity then 2 else 1) * count_list (all_models cfg) model"
proof -
  have "length (tests_for model (xs @ ys)) = length (tests_for model xs) + length (tests_for model ys)"
    for xs ys
    by (simp add: tests_for_def)
  then show ?thesis
    by (cases a) (simp_all add: tests_for_map comparison_def)
qed

subsection \<open>An example environment\<close>

text \<open>
  Three coins in the time frame 1d with the errors of the model ARIMA, a table of
  unconditional heteroskedasticity outcomes, and a stand-in for the Mann-Whitney U test
  that accepts two groups and reports them.
\<close>

definition het_results :: frame where
  "het_results =
     \<lparr>columns = [''Coin'', ''Time Frame'', ''Breusch-Pagan'', ''Goldfeld-Quandt''],
      rows = [[''BTC'', ''1d'', ''Heteroskedastic'', ''Homoskedastic''],
              [''ETH'', ''1d'', ''Homoskedastic'', ''Heteroskedastic''],
              [''SOL'', ''1d'', ''Heteroskedastic'', ''Heteroskedastic'']]\<rparr>"

definition demo_env :: "string list list env" where
  "demo_env =
     \<lparr>read_csv = (\<lambda>p. if p = ''data/statistics/unconditional_heteroskedasticity_log_returns.csv''
                       then Inr het_results
                       else if p = ''data/statistics/Ljung-Box_log_returns.csv'' then Inr btc_eth_runs
                       else Inl (FileNotFoundError p)),
      read_rmse_csv = (\<lambda>pred time_frame.
                         if time_frame = ''1d'' then Inr [(''BTC'', [''0.05'']), (''ETH'', [''0.10'']), (''SOL'', [''0.20''])]
                         else Inl (FileNotFoundError time_frame)),
      rmse_columns = [''ARIMA''],
      mannwhitneyu = (\<lambda>gs. if length gs = 2 then Inr gs else Inl (TypeError ''mannwhitneyu'')),
      anova_lm = (\<lambda>f df. Inl (TestError f)),
      ols_p_value = (\<lambda>y X. Inl (TestError ''OLS''))\<rparr>"

definition no_run :: "string list list run" where
  "no_run = \<lparr>tests = [], stdout = []\<rparr>"

lemma merge_rmse_frame_demo:
  "merge_rmse_frame demo_env demo_config het_results
     = Inr \<lparr>columns = [''Coin'', ''Time Frame'', ''Breusch-Pagan'', ''Goldfeld-Quandt'', ''ARIMA''],
            rows = [[''BTC'', ''1d'', ''Heteroskedastic'', ''Homoskedastic'', ''0.05''],
                    [''ETH'', ''1d'', ''Homoskedastic'', ''Heteroskedastic'', ''0.10''],
                    [''SOL'', ''1d'', ''Heteroskedastic'', ''Heteroskedastic'', ''0.20'']]\<rparr>"
  by (simp add: merge_rmse_frame_def merge_rmse_def rmse_table_def demo_env_def demo_config_def
      keyed_def het_results_def cell_def merge_inner_def missing_columns_def merged_columns_def)

definition het_joined :: frame where
  "het_joined =
     \<lparr>columns = [''Coin'', ''Time Frame'', ''Breusch-Pagan'', ''Goldfeld-Quandt'', ''ARIMA''],
      rows = [[''BTC'', ''1d'', ''Heteroskedastic'', ''Homoskedastic'', ''0.05''],
              [''ETH'', ''1d'', ''Homoskedastic'', ''Heteroskedastic'', ''0.10''],
              [''SOL'', ''1d'', ''Heteroskedastic'', ''Heteroskedastic'', ''0.20'']]\<rparr>"

lemma groups_demo:
  "groups het_joined ''Breusch-Pagan'' ''ARIMA'' = Inr [[''0.05'', ''0.20''], [''0.10'']]"
  "groups het_joined ''Goldfeld-Quandt'' ''ARIMA'' = Inr [[''0.05''], [''0.10'', ''0.20'']]"
  by (simp_all add: groups_def column_def unique_def cell_def het_joined_def)

lemma uncon_het_demo:
  "uncon_het demo_env demo_config no_run
     = (Inr (),
        \<lparr>tests = [MannWhitneyU ''Breusch-Pagan'' ''ARIMA'' [[''0.05'', ''0.20''], [''0.10'']],
                  MannWhitneyU ''Goldfeld-Quandt'' ''ARIMA'' [[''0.05''], [''0.10'', ''0.20'']]],
         stdout = [Results [(''ARIMA'', [[''0.05'', ''0.20''], [''0.10'']])],
                   Results [(''ARIMA'', [[''0.05''], [''0.10'', ''0.20'']])]]\<rparr>)"
proof -
  have r: "read_csv demo_env (csv_path demo_config ''unconditional_heteroskedasticity_log_returns'')
      = Inr het_results"
    by (simp add: demo_env_def csv_path_def demo_config_def)
  have m: "all_models demo_config = [''ARIMA'']"
    by (simp add: demo_config_def)
  have j: "merge_rmse_frame demo_env demo_config het_results = Inr het_joined"
    by (simp add: merge_rmse_frame_demo het_joined_def)
  have t: "mannwhitneyu demo_env = (\<lambda>gs. if length gs = 2 then Inr gs else Inl (TypeError ''mannwhitneyu''))"
    by (simp add: demo_env_def)
  show ?thesis
    by (simp add: uncon_het_def r j m groups_demo t called_def print_def no_run_def)
qed

lemma high_auto_cor_demo_env:
  "high_auto_cor demo_config (read_csv demo_env) ''Ljung-Box''
     = Inr [((''BTC'', ''1d''), ''Autocorrelated''), ((''ETH'', ''1d''), ''Not Autocorrelated'')]"
proof -
  have m: "missing_columns btc_eth_runs [''Coin'', ''Time Frame'', ''Result''] = []"
    by (simp add: missing_columns_def btc_eth_runs_def)
  have r: "read_csv demo_env (csv_path demo_config (''Ljung-Box'' @ ''_log_returns'')) = Inr btc_eth_runs"
    by (simp add: demo_env_def csv_path_def demo_config_def)
  show ?thesis
    unfolding high_auto_cor_def r
    by (simp add: reduce_counts_eq [OF m] sorted_pairs_btc_eth outcome_count_def
        triples_btc_eth_runs count_list_replicate predominantly_def)
qed

subsection \<open>One test per model\<close>

text \<open>
  C5 (one test per model), as stated, fails for the heteroskedasticity analysis:
  \<^verbatim>\<open>uncon_het\<close> has two loops over the models, the first partitions the errors by the
  column Breusch-Pagan and the second by the column Goldfeld-Quandt, so that the single
  model ARIMA of the example gets two Mann-Whitney U comparisons, over two partitions
  of its three errors.
\<close>

theorem heteroskedasticity_two_tests:
  "all_models demo_config = [''ARIMA'']
   \<and> fst (heteroskedasticity demo_env demo_config no_run) = Inr ()
   \<and> tests_for ''ARIMA'' (tests (snd (heteroskedasticity demo_env demo_config no_run)))
       = [MannWhitneyU ''Breusch-Pagan'' ''ARIMA'' [[''0.05'', ''0.20''], [''0.10'']],
          MannWhitneyU ''Goldfeld-Quandt'' ''ARIMA'' [[''0.05''], [''0.10'', ''0.20'']]]"
proof -
  have "all_models demo_config = [''ARIMA'']"
    by (simp add: demo_config_def)
  then show ?thesis
    by (simp add: heteroskedasticity_def uncon_het_demo tests_for_def)
qed

text \<open>
  C5, amended. An analysis that completes has joined its table with the errors and has
  run on the joined table, in the order of \<^verbatim>\<open>config.all_models\<close>, the tests of its
  category and no other, and each of them returned: for every model one two-way ANOVA
  with the formula of the model in the autocorrelation analysis; one regression of the
  model's errors on the seasonal strength in the seasonality analysis; one Mann-Whitney U
  comparison over the model's errors partitioned by the label column in the trend,
  conditional heteroskedasticity and stochasticity analyses; and two Mann-Whitney U
  comparisons in the heteroskedasticity analysis, the first over the errors partitioned
  by the column Breusch-Pagan, the second over the errors partitioned by the column
  Goldfeld-Quandt.
\<close>

theorem tests_per_model:
  assumes "run_analysis w cfg a s = (Inr u, s')"
  shows "\<exists>df. joined_table w cfg a = Inr df
           \<and> tests s' = tests s @ tests_of cfg a df
           \<and> list_all (returned w) (tests_of cfg a df)
           \<and> length (tests_for model (tests_of cfg a df))
               = (if a = Heteroskedasticity then 2 else 1) * count_list (all_models cfg) model"
proof -
  have "\<exists>df. joined_table w cfg a = Inr df
           \<and> tests s' = tests s @ tests_of cfg a df
           \<and> list_all (returned w) (tests_of cfg a df)"
  proof (cases a)
    case AutoCorrelation
    with assms auto_correlation_tests [of w cfg s u s'] show ?thesis by simp
  next
    case Trend
    with assms trend_tests [of w cfg s u s'] show ?thesis by simp
  next
    case Seasonality
    with assms seasonality_tests [of w cfg s u s'] show ?thesis by simp
  next
    case Heteroskedasticity
    with assms uncon_het_tests [of w cfg s u s'] show ?thesis
      by (simp add: heteroskedasticity_def)
  next
    case ConditionalHeteroskedasticity
    with assms cond_het_tests [of w cfg s u s'] show ?thesis by simp
  next
    case Stochasticity
    with assms stochasticity_tests [of w cfg s u s'] show ?thesis by simp
  qed
  then show ?thesis
    using tests_for_tests_of [of model cfg a] by auto
qed

theorem tests_per_model_witness:
  "joined_table demo_env demo_config Heteroskedasticity = Inr het_joined
   \<and> tests (snd (run_analysis demo_env demo_config Heteroskedasticity no_run))
       = tests no_run @ tests_of demo_config Heteroskedasticity het_joined
   \<and> tests_of demo_config Heteroskedasticity het_joined
       = [MannWhitneyU ''Breusch-Pagan'' ''ARIMA'' [[''0.05'', ''0.20''], [''0.10'']],
          MannWhitneyU ''Goldfeld-Quandt'' ''ARIMA'' [[''0.05''], [''0.10'', ''0.20'']]]
   \<and> length (tests_for ''ARIMA'' (tests_of demo_config Heteroskedasticity het_joined)) = 2"
proof -
  have h: "heteroskedasticity demo_env demo_config no_run
      = (Inr (),
         \<lparr>tests = [MannWhitneyU ''Breusch-Pagan'' ''ARIMA'' [[''0.05'', ''0.20''], [''0.10'']],
                   MannWhitneyU ''Goldfeld-Quandt'' ''ARIMA'' [[''0.05''], [''0.10'', ''0.20'']]],
          stdout = [Results [(''ARIMA'', [[''0.05'', ''0.20''], [''0.10'']])],
                    Results [(''ARIMA'', [[''0.05''], [''0.10'', ''0.20'']])]]\<rparr>)"
    by (simp add: heteroskedasticity_def uncon_het_demo)
  then have r: "run_analysis demo_env demo_config Heteroskedasticity no_run
      = (Inr (),
         \<lparr>tests = [MannWhitneyU ''Breusch-Pagan'' ''ARIMA'' [[''0.05'', ''0.20''], [''0.10'']],
                   MannWhitneyU ''Goldfeld-Quandt'' ''ARIMA'' [[''0.05''], [''0.10'', ''0.20'']]],
          stdout = [Results [(''ARIMA'', [[''0.05'', ''0.20''], [''0.10'']])],
                    Results [(''ARIMA'', [[''0.05''], [''0.10'', ''0.20'']])]]\<rparr>)"
    by simp
  have c: "read_csv demo_env (csv_path demo_config ''unconditional_heteroskedasticity_log_returns'')
      = Inr het_results"
    by (simp add: demo_env_def csv_path_def demo_config_def)
  have j: "joined_table demo_env demo_config Heteroskedasticity = Inr het_joined"
    by (simp add: joined_table_def c merge_rmse_frame_demo het_joined_def)
  have n: "tests no_run = []"
    by (simp add: no_run_def)
  have m: "all_models demo_config = [''ARIMA'']"
    by (simp add: demo_config_def)
  show ?thesis
    using tests_per_model [OF r, of "''ARIMA''"]
    by (auto simp: h j n m)
qed

subsection \<open>A table that cannot be read\<close>

text \<open>
  C8 (loader failure). When \<^verbatim>\<open>pd.read_csv\<close> raises, because the file is absent or
  cannot be parsed, the error is the outcome of the call: \<^verbatim>\<open>high_auto_cor\<close> returns
  no table, and an analysis whose table cannot be read ends with this error before it has
  run a test or printed a value. The autocorrelation analysis reads two tables; the
  failure of the second read, after the first table has been reduced, ends it in the same
  way.
\<close>

theorem read_csv_failure_propagates:
  "(read_csv w (csv_path cfg (test_type @ ''_log_returns'')) = Inl e
      \<longrightarrow> high_auto_cor cfg (read_csv w) test_type = Inl e)
   \<and> (read_csv w (csv_path cfg (input_csv a)) = Inl e \<longrightarrow> run_analysis w cfg a s = (Inl e, s))
   \<and> (high_auto_cor cfg (read_csv w) ''Ljung-Box'' = Inr ljung
        \<and> read_csv w (csv_path cfg ''Breusch-Godfrey_log_returns'') = Inl e
      \<longrightarrow> auto_correlation w cfg s = (Inl e, s))"
proof (intro conjI impI)
  assume "read_csv w (csv_path cfg (test_type @ ''_log_returns'')) = Inl e"
  then show "high_auto_cor cfg (read_csv w) test_type = Inl e"
    by (simp add: high_auto_cor_def)
next
  assume r: "read_csv w (csv_path cfg (input_csv a)) = Inl e"
  show "run_analysis w cfg a s = (Inl e, s)"
  proof (cases a)
    case AutoCorrelation
    with r show ?thesis
      by (simp add: auto_correlation_def auto_correlation_overlap_def high_auto_cor_def)
  next
    case Trend
    with r show ?thesis by (simp add: trend_def)
  next
    case Seasonality
    with r show ?thesis by (simp add: seasonality_def)
  next
    case Heteroskedasticity
    with r show ?thesis by (simp add: heteroskedasticity_def uncon_het_def)
  next
    case ConditionalHeteroskedasticity
    with r show ?thesis by (simp add: cond_het_def)
  next
    case Stochasticity
    with r show ?thesis by (simp add: stochasticity_def)
  qed
next
  assume "high_auto_cor cfg (read_csv w) ''Ljung-Box'' = Inr ljung
    \<and> read_csv w (csv_path cfg ''Breusch-Godfrey_log_returns'') = Inl e"
  then have "high_auto_cor cfg (read_csv w) ''Ljung-Box'' = Inr ljung"
    and "high_auto_cor cfg (read_csv w) ''Breusch-Godfrey'' = Inl e"
    by (simp_all add: high_auto_cor_def)
  then show "auto_correlation w cfg s = (Inl e, s)"
    by (simp add: auto_correlation_def auto_correlation_overlap_def)
qed

theorem read_csv_failure_propagates_witness:
  "high_auto_cor demo_config (read_csv demo_env) ''Breusch-Godfrey''
     = Inl (FileNotFoundError ''data/statistics/Breusch-Godfrey_log_returns.csv'')
   \<and> run_analysis demo_env demo_config Trend no_run
       = (Inl (FileNotFoundError ''data/statistics/trend_results_log_returns.csv''), no_run)
   \<and> auto_correlation demo_env demo_config no_run
       = (Inl (FileNotFoundError ''data/statistics/Breusch-Godfrey_log_returns.csv''), no_run)"
proof -
  have b: "read_csv demo_env (csv_path demo_config (''Breusch-Godfrey'' @ ''_log_returns''))
      = Inl (FileNotFoundError ''data/statistics/Breusch-Godfrey_log_returns.csv'')"
    by (simp add: demo_env_def csv_path_def demo_config_def)
  have t: "read_csv demo_env (csv_path demo_config (input_csv Trend))
      = Inl (FileNotFoundError ''data/statistics/trend_results_log_returns.csv'')"
    by (simp add: demo_env_def csv_path_def demo_config_def)
  show ?thesis
    using
      read_csv_failure_propagates [where w = demo_env and cfg = demo_config
        and test_type = "''Breusch-Godfrey''" and s = no_run
        and e = "FileNotFoundError ''data/statistics/Breusch-Godfrey_log_returns.csv''"
        and ljung = "[((''BTC'', ''1d''), ''Autocorrelated''), ((''ETH'', ''1d''), ''Not Autocorrelated'')]"]
      read_csv_failure_propagates [where w = demo_env and cfg = demo_config and a = Trend
        and s = no_run
        and e = "FileNotFoundError ''data/statistics/trend_results_log_returns.csv''"]
      b t high_auto_cor_demo_env
    by simp
qed

subsection \<open>A pair that one family lacks\<close>

text \<open>
  C9 (missing-family default). When both reduced tables are returned,
  \<^verbatim>\<open>auto_correlation\<close> goes on with the table that combines them, joined with the
  errors. A pair present in the reduced table of exactly one family is kept by the outer
  merge, in one row, with the other family's label missing, and its combined label is
  "Not Autocorrelated".
\<close>

theorem auto_correlation_missing_family:
  assumes "high_auto_cor cfg (read_csv w) ''Ljung-Box'' = Inr ljung"
    and "high_auto_cor cfg (read_csv w) ''Breusch-Godfrey'' = Inr breusch"
  shows "auto_correlation_overlap cfg (read_csv w) = Inr (overlap ljung breusch)
       \<and> auto_correlation w cfg s
           = (case merge_rmse_frame w cfg (labelled_frame (overlap ljung breusch)) of
                Inl e \<Rightarrow> (Inl e, s)
              | Inr df \<Rightarrow> anova w cfg df s)
       \<and> ((k, a) \<in> set ljung \<and> k \<notin> fst ` set breusch
            \<longrightarrow> rows_with k (merge_outer ljung breusch) = [(k, Some a, None)]
              \<and> combined_labels (overlap ljung breusch) k = [''Not Autocorrelated''])
       \<and> ((k, b) \<in> set breusch \<and> k \<notin> fst ` set ljung
            \<longrightarrow> rows_with k (merge_outer ljung breusch) = [(k, None, Some b)]
              \<and> combined_labels (overlap ljung breusch) k = [''Not Autocorrelated''])"
proof -
  have o: "auto_correlation_overlap cfg (read_csv w) = Inr (overlap ljung breusch)"
    by (simp add: auto_correlation_overlap_def assms)
  then have "auto_correlation w cfg s
      = (case merge_rmse_frame w cfg (labelled_frame (overlap ljung breusch)) of
           Inl e \<Rightarrow> (Inl e, s)
         | Inr df \<Rightarrow> anova w cfg df s)"
    by (simp add: auto_correlation_def)
  with o show ?thesis
    using combined_labels_ljung_only [OF high_auto_cor_distinct [OF assms(1)]]
      combined_labels_breusch_only [OF high_auto_cor_distinct [OF assms(2)]]
    by blast
qed

text \<open>The example environment with the tables of both families.\<close>

definition both_env :: "string list list env" where
  "both_env = demo_env\<lparr>read_csv := demo_read_csv\<rparr>"

theorem auto_correlation_missing_family_witness:
  "auto_correlation_overlap demo_config (read_csv both_env)
     = Inr (overlap
         [((''BTC'', ''1d''), ''Autocorrelated''), ((''ETH'', ''1d''), ''Not Autocorrelated'')]
         [((''BTC'', ''1d''), ''Autocorrelated''), ((''SOL'', ''1d''), ''Autocorrelated'')])
   \<and> combined_labels
       (overlap [((''BTC'', ''1d''), ''Autocorrelated''), ((''ETH'', ''1d''), ''Not Autocorrelated'')]
          [((''BTC'', ''1d''), ''Autocorrelated''), ((''SOL'', ''1d''), ''Autocorrelated'')])
       (''SOL'', ''1d'') = [''Not Autocorrelated'']
   \<and> combined_labels
       (overlap [((''BTC'', ''1d''), ''Autocorrelated''), ((''ETH'', ''1d''), ''Not Autocorrelated'')]
          [((''BTC'', ''1d''), ''Autocorrelated''), ((''SOL'', ''1d''), ''Autocorrelated'')])
       (''ETH'', ''1d'') = [''Not Autocorrelated'']"
proof -
  have r: "read_csv both_env = demo_read_csv"
    by (simp add: both_env_def)
  have l: "high_auto_cor demo_config (read_csv both_env) ''Ljung-Box''
      = Inr [((''BTC'', ''1d''), ''Autocorrelated''), ((''ETH'', ''1d''), ''Not Autocorrelated'')]"
    by (simp only: r high_auto_cor_demo_ljung)
  have b: "high_auto_cor demo_config (read_csv both_env) ''Breusch-Godfrey''
      = Inr [((''BTC'', ''1d''), ''Autocorrelated''), ((''SOL'', ''1d''), ''Autocorrelated'')]"
    by (simp only: r high_auto_cor_demo_breusch)
  show ?thesis
    using auto_correlation_missing_family [OF l b,
        of no_run "(''SOL'', ''1d'')" "''x''" "''Autocorrelated''"]
      auto_correlation_missing_family [OF l b,
        of no_run "(''ETH'', ''1d'')" "''Not Autocorrelated''" "''x''"]
    by simp
qed

subsection \<open>Two coins with different labels\<close>










end
